theory Spec2Isabelle
  imports Main "HOL-Library.Sublist"
begin

section \<open>Text\<close>

text \<open>
  The two tools, \<^verbatim>\<open>claude/extract-mcp.js\<close> (the Extractor) and
  \<^verbatim>\<open>claude/restore-mcp.js\<close> (the Restorer), work on JavaScript strings.
  A string is modelled as a \<^typ>\<open>string\<close>, a list of 8-bit characters standing
  for the code units \<open>0x00\<close> to \<open>0xFF\<close>; text with code units above
  \<open>0xFF\<close> is outside the model.
\<close>

definition DQ :: char where
  "DQ = CHR 0x22"

definition BSL :: char where
  "BSL = CHR 0x5C"

definition NL :: char where
  "NL = CHR 0x0A"

subsection \<open>\<^verbatim>\<open>str.split(sep).join(rep)\<close> with a string separator\<close>

text \<open>
  \<^verbatim>\<open>String.prototype.split\<close> with a non-empty string separator cuts the text at the
  leftmost occurrences of the separator, searching on after each one; the empty
  separator cuts the text into its code units. \<open>cur\<close> is the piece being read.
\<close>

function splitAcc :: "string \<Rightarrow> string \<Rightarrow> string \<Rightarrow> string list" where
  "splitAcc sep cur [] = [cur]"
| "splitAcc sep cur (c # cs) =
     (if sep \<noteq> [] \<and> prefix sep (c # cs)
      then cur # splitAcc sep [] (drop (length sep) (c # cs))
      else splitAcc sep (cur @ [c]) cs)"
  by pat_completeness auto
termination
  by (relation "measure (\<lambda>(sep, cur, s). length s)") auto

definition splitJS :: "string \<Rightarrow> string \<Rightarrow> string list" where
  "splitJS sep s = (if sep = [] then map (\<lambda>c. [c]) s else splitAcc sep [] s)"

fun joinJS :: "string \<Rightarrow> string list \<Rightarrow> string" where
  "joinJS rep [] = []"
| "joinJS rep [p] = p"
| "joinJS rep (p # q # ps) = p @ rep @ joinJS rep (q # ps)"

subsection \<open>Global regular expressions\<close>

text \<open>
  Every regular expression of the two tools is global (\<^verbatim>\<open>/g\<close>) and has one of two
  shapes: a literal followed by one or more characters of a class
  (\<^verbatim>\<open>/sk_test_[A-Za-z0-9]+/g\<close>), or a literal alone
  (\<^verbatim>\<open>new RegExp("\\$\\{" + key + "\\}", "g")\<close>). A \<open>matcher\<close> gives the length of
  the match that starts at the head of the text, if there is one. No expression of
  the tools matches the empty string, and a matcher's \<open>Some 0\<close> counts as no match.
\<close>

type_synonym matcher = "string \<Rightarrow> nat option"

definition reClass :: "string \<Rightarrow> string \<Rightarrow> matcher" where
  "reClass pfx cls s =
     (if prefix pfx s
      then (case length (takeWhile (\<lambda>c. c \<in> set cls) (drop (length pfx) s)) of
              0 \<Rightarrow> None
            | Suc k \<Rightarrow> Some (length pfx + Suc k))
      else None)"

definition reLit :: "string \<Rightarrow> matcher" where
  "reLit pat s = (if pat \<noteq> [] \<and> prefix pat s then Some (length pat) else None)"

text \<open>
  \<^verbatim>\<open>str.match(re)\<close>: the matches from left to right, each search starting where the
  previous match ended. The empty list stands for JavaScript's \<^verbatim>\<open>null\<close>.
\<close>

function gmatch :: "matcher \<Rightarrow> string \<Rightarrow> string list" where
  "gmatch m [] = []"
| "gmatch m (c # cs) =
     (case m (c # cs) of
        None \<Rightarrow> gmatch m cs
      | Some 0 \<Rightarrow> gmatch m cs
      | Some (Suc n) \<Rightarrow> (c # take n cs) # gmatch m (drop n cs))"
  by pat_completeness auto
termination
  by (relation "measure (\<lambda>(m, s). length s)") auto

text \<open>
  The replacement string of \<^verbatim>\<open>str.replace(re, repl)\<close> is a template:
  \<^verbatim>\<open>$$\<close> is a dollar sign, \<^verbatim>\<open>$&\<close> the match, \<^verbatim>\<open>$`\<close> the text before the
  match and \<^verbatim>\<open>$'\<close> the text after it. The expressions here have no capture
  group, so every other use of \<^verbatim>\<open>$\<close> stands for itself.
\<close>

fun expandRepl :: "string \<Rightarrow> string \<Rightarrow> string \<Rightarrow> string \<Rightarrow> string" where
  "expandRepl [] bef mat aft = []"
| "expandRepl [c] bef mat aft = [c]"
| "expandRepl (c # d # r) bef mat aft =
     (if c = CHR ''$'' \<and> d = CHR ''$'' then CHR ''$'' # expandRepl r bef mat aft
      else if c = CHR ''$'' \<and> d = CHR ''&'' then mat @ expandRepl r bef mat aft
      else if c = CHR ''$'' \<and> d = CHR 0x60 then bef @ expandRepl r bef mat aft
      else if c = CHR ''$'' \<and> d = CHR 0x27 then aft @ expandRepl r bef mat aft
      else c # expandRepl (d # r) bef mat aft)"

text \<open>
  \<^verbatim>\<open>str.replace(re, repl)\<close>: every match is replaced by the expanded template, the
  text between the matches is kept. \<open>bef\<close> is the part of the subject already read.
\<close>

function gsub :: "matcher \<Rightarrow> string \<Rightarrow> string \<Rightarrow> string \<Rightarrow> string" where
  "gsub m repl bef [] = []"
| "gsub m repl bef (c # cs) =
     (case m (c # cs) of
        None \<Rightarrow> c # gsub m repl (bef @ [c]) cs
      | Some 0 \<Rightarrow> c # gsub m repl (bef @ [c]) cs
      | Some (Suc n) \<Rightarrow>
          expandRepl repl bef (c # take n cs) (drop n cs)
            @ gsub m repl (bef @ c # take n cs) (drop n cs))"
  by pat_completeness auto
termination
  by (relation "measure (\<lambda>(m, repl, bef, s). length s)") auto

definition replaceJS :: "matcher \<Rightarrow> string \<Rightarrow> string \<Rightarrow> string" where
  "replaceJS m repl str = gsub m repl [] str"

section \<open>JSON values\<close>

text \<open>
  A JSON document as \<^verbatim>\<open>JSON.parse\<close> returns it. An object is the list of its
  members in the order in which JavaScript enumerates them, its keys distinct. The
  tools never compute with numbers: all they can see of a number is whether it is
  zero and how it is written out again, so a number is carried as its literal and
  read as the double it stands for where that matters.
\<close>

datatype json =
    JNull
  | JBool bool
  | JNum string
  | JStr string
  | JArr "json list"
  | JObj "(string \<times> json) list"

type_synonym members = "(string \<times> json) list"

subsection \<open>The keys of an object, in the order of enumeration\<close>

text \<open>
  JavaScript enumerates the keys of an object that are array indices, the decimal
  numerals of \<open>0\<close> to \<open>2\<^sup>3\<^sup>2 - 2\<close>, first and in ascending order, and the
  other keys after them in the order of their creation. \<^verbatim>\<open>obj[key] = value\<close>
  on a plain object: an existing key keeps its place, a new key goes where the
  enumeration will find it.
\<close>

definition isDigit :: "char \<Rightarrow> bool" where
  "isDigit c = (c \<in> set ''0123456789'')"

definition digitsValue :: "string \<Rightarrow> int" where
  "digitsValue ds = foldl (\<lambda>n c. 10 * n + (of_char c - 48)) 0 ds"

definition isIndex :: "string \<Rightarrow> bool" where
  "isIndex k =
     (k \<noteq> [] \<and> list_all isDigit k \<and> (k = ''0'' \<or> hd k \<noteq> CHR ''0'') \<and>
      length k \<le> 10 \<and> digitsValue k \<le> 4294967294)"

definition keyBefore :: "string \<Rightarrow> string \<Rightarrow> bool" where
  "keyBefore k k' = (isIndex k \<and> (if isIndex k' then digitsValue k < digitsValue k' else True))"

fun insertKey :: "(string \<times> 'a) list \<Rightarrow> string \<Rightarrow> 'a \<Rightarrow> (string \<times> 'a) list" where
  "insertKey [] k v = [(k, v)]"
| "insertKey ((k', v') # kvs) k v =
     (if keyBefore k k' then (k, v) # (k', v') # kvs else (k', v') # insertKey kvs k v)"

fun updateKey :: "(string \<times> 'a) list \<Rightarrow> string \<Rightarrow> 'a \<Rightarrow> (string \<times> 'a) list" where
  "updateKey [] k v = []"
| "updateKey ((k', v') # kvs) k v =
     (if k' = k then (k, v) # kvs else (k', v') # updateKey kvs k v)"

definition objSet :: "(string \<times> 'a) list \<Rightarrow> string \<Rightarrow> 'a \<Rightarrow> (string \<times> 'a) list" where
  "objSet kvs k v = (if k \<in> fst ` set kvs then updateKey kvs k v else insertKey kvs k v)"

subsection \<open>Numbers\<close>

text \<open>
  \<^verbatim>\<open>JSON.parse\<close> reads a number literal as the double nearest to it, ties going to
  the even mantissa, and as \<^verbatim>\<open>Infinity\<close> from \<open>2\<^sup>1\<^sup>0\<^sup>2\<^sup>4\<close> on;
  \<^verbatim>\<open>JSON.stringify\<close> writes a double with the fewest digits that read back as the
  same double, and \<^verbatim>\<open>null\<close> for \<^verbatim>\<open>Infinity\<close>. A literal is its sign, its
  digits as a whole number \<open>m\<close> and a decimal exponent \<open>e\<close>, standing for
  \<open>\<plusminus> m \<cdot> 10\<^sup>e\<close>; a double that is not zero is \<open>f \<cdot> 2\<^sup>p\<close>.
\<close>

function showInt :: "int \<Rightarrow> string" where
  "showInt n =
     (if n < 10 then [''0123456789'' ! nat n]
      else showInt (n div 10) @ [''0123456789'' ! nat (n mod 10)])"
  by pat_completeness auto
termination
  by (relation "measure nat") auto

definition decimalOf :: "string \<Rightarrow> bool \<times> int \<times> int" where
  "decimalOf lit =
     (let neg = (lit \<noteq> [] \<and> hd lit = CHR ''-'');
          s = (if neg then tl lit else lit);
          ip = takeWhile isDigit s;
          r1 = dropWhile isDigit s;
          dot = (r1 \<noteq> [] \<and> hd r1 = CHR ''.'');
          fp = (if dot then takeWhile isDigit (tl r1) else []);
          r2 = (if dot then dropWhile isDigit (tl r1) else r1);
          ex = (case r2 of
                  [] \<Rightarrow> 0
                | e # r3 \<Rightarrow>
                    (case r3 of
                       [] \<Rightarrow> 0
                     | c # ds \<Rightarrow>
                         if c = CHR ''-'' then - digitsValue ds
                         else if c = CHR ''+'' then digitsValue ds
                         else digitsValue (c # ds)))
      in (neg, digitsValue (ip @ fp), ex - int (length fp)))"

datatype float64 = FZero | FNum int int | FInf

function bits :: "int \<Rightarrow> int" where
  "bits n = (if n \<le> 0 then 0 else 1 + bits (n div 2))"
  by pat_completeness auto
termination
  by (relation "measure nat") auto

function decDigits :: "int \<Rightarrow> int" where
  "decDigits n = (if n < 10 then 1 else 1 + decDigits (n div 10))"
  by pat_completeness auto
termination
  by (relation "measure nat") auto

text \<open>The whole number nearest to \<open>a / b\<close>, the even one of two that are as near.\<close>

definition roundHalfEven :: "int \<Rightarrow> int \<Rightarrow> int" where
  "roundHalfEven a b =
     (let q = a div b; r = a mod b
      in if 2 * r < b then q else if b < 2 * r then q + 1 else if even q then q else q + 1)"

text \<open>
  Fractions are kept as numerator and denominator: \<open>shift base e a\<close> and
  \<open>shift base (- e) b\<close> are those of \<open>(a / b) \<cdot> base\<^sup>e\<close>.
\<close>

definition shift :: "int \<Rightarrow> int \<Rightarrow> int \<Rightarrow> int" where
  "shift base e a = (if 0 \<le> e then a * base ^ nat e else a)"

text \<open>
  The double nearest to \<open>a / b\<close>: \<open>e2\<close> is the binary exponent of \<open>a / b\<close>,
  \<open>p\<close> the exponent of the last place of the mantissa, which has 53 bits and
  fewer below \<open>2\<^sup>-\<^sup>1\<^sup>0\<^sup>2\<^sup>2\<close>.
\<close>

definition nearestDouble :: "int \<Rightarrow> int \<Rightarrow> float64" where
  "nearestDouble a b =
     (if a \<le> 0 then FZero
      else
        (let d = bits a - bits b;
             e2 = (if shift 2 d b \<le> shift 2 (- d) a then d else d - 1);
             p = max (e2 - 52) (- 1074);
             f = roundHalfEven (shift 2 (- p) a) (shift 2 p b)
         in if f = 0 then FZero
            else if f = 2 ^ 53 then (if 971 < p + 1 then FInf else FNum (2 ^ 52) (p + 1))
            else if 971 < p then FInf else FNum f p))"

definition doubleOf :: "string \<Rightarrow> float64" where
  "doubleOf lit =
     nearestDouble (shift 10 (snd (snd (decimalOf lit))) (fst (snd (decimalOf lit))))
       (shift 10 (- snd (snd (decimalOf lit))) 1)"

text \<open>
  \<^verbatim>\<open>Number.prototype.toString\<close>: the digits \<open>s\<close>, their number \<open>k\<close> and the
  position \<open>n\<close> of the decimal point such that \<open>s \<cdot> 10\<^sup>n\<^sup>-\<^sup>k\<close> reads as the
  double \<open>x\<close>, with \<open>k\<close> as small as can be and \<open>s \<cdot> 10\<^sup>n\<^sup>-\<^sup>k\<close> as near
  to \<open>x\<close> as can be. Seventeen digits are always enough.
\<close>

definition candidate :: "float64 \<Rightarrow> int \<Rightarrow> int \<Rightarrow> int \<Rightarrow> bool" where
  "candidate x k n s =
     (10 ^ nat (k - 1) \<le> s \<and> s < 10 ^ nat k \<and>
      nearestDouble (shift 10 (n - k) s) (shift 10 (k - n) 1) = x)"

definition candidates10 :: "float64 \<Rightarrow> int \<Rightarrow> int \<Rightarrow> int \<Rightarrow> int \<Rightarrow> (int \<times> int) list" where
  "candidates10 x vn vd k n =
     (let lo = shift 10 (k - n) vn div shift 10 (n - k) vd
      in (if candidate x k n lo then [(n, lo)] else []) @
         (if candidate x k n (lo + 1) then [(n, lo + 1)] else []))"

text \<open>The distance of \<open>s \<cdot> 10\<^sup>n\<^sup>-\<^sup>k\<close> from \<open>vn / vd\<close>, as numerator and denominator.\<close>

definition distNum :: "int \<Rightarrow> int \<Rightarrow> int \<Rightarrow> int \<times> int \<Rightarrow> int" where
  "distNum vn vd k c = abs (shift 10 (fst c - k) (snd c) * vd - vn * shift 10 (k - fst c) 1)"

definition distDen :: "int \<Rightarrow> int \<Rightarrow> int \<times> int \<Rightarrow> int" where
  "distDen vd k c = shift 10 (k - fst c) 1 * vd"

definition closer :: "int \<Rightarrow> int \<Rightarrow> int \<Rightarrow> int \<times> int \<Rightarrow> int \<times> int \<Rightarrow> int \<times> int" where
  "closer vn vd k c c' =
     (if distNum vn vd k c * distDen vd k c' < distNum vn vd k c' * distDen vd k c then c
      else if distNum vn vd k c' * distDen vd k c < distNum vn vd k c * distDen vd k c' then c'
      else if even (snd c) then c else c')"

fun search :: "float64 \<Rightarrow> int \<Rightarrow> int \<Rightarrow> int \<Rightarrow> int list \<Rightarrow> int \<times> int \<times> int" where
  "search x vn vd n0 [] = (n0, 17, shift 10 (17 - n0) vn div shift 10 (n0 - 17) vd)"
| "search x vn vd n0 (k # ks) =
     (let cs = candidates10 x vn vd k n0 @ candidates10 x vn vd k (n0 + 1)
      in if cs = [] then search x vn vd n0 ks
         else (fst (foldl (closer vn vd k) (hd cs) (tl cs)), k,
               snd (foldl (closer vn vd k) (hd cs) (tl cs))))"

definition shortest :: "int \<Rightarrow> int \<Rightarrow> int \<times> int \<times> int" where
  "shortest f p =
     (let vn = shift 2 p f; vd = shift 2 (- p) 1;
          d = decDigits vn - decDigits vd;
          n0 = (if shift 10 d vd \<le> shift 10 (- d) vn then d + 1 else d)
      in search (FNum f p) vn vd n0 [1, 2, 3, 4, 5, 6, 7, 8, 9, 10, 11, 12, 13, 14, 15, 16, 17])"

fun renderDigits :: "int \<times> int \<times> int \<Rightarrow> string" where
  "renderDigits (n, k, s) =
     (let ds = showInt s in
      if k \<le> n \<and> n \<le> 21 then ds @ replicate (nat (n - k)) (CHR ''0'')
      else if 0 < n \<and> n \<le> 21 then take (nat n) ds @ ''.'' @ drop (nat n) ds
      else if - 6 < n \<and> n \<le> 0 then ''0.'' @ replicate (nat (- n)) (CHR ''0'') @ ds
      else
        (let ex = (if 0 \<le> n - 1 then ''+'' else ''-'') @ showInt (abs (n - 1))
         in if k = 1 then ds @ ''e'' @ ex
            else take 1 ds @ ''.'' @ drop 1 ds @ ''e'' @ ex))"

fun showDouble :: "bool \<Rightarrow> float64 \<Rightarrow> string" where
  "showDouble neg FZero = ''0''"
| "showDouble neg FInf = (if neg then ''-Infinity'' else ''Infinity'')"
| "showDouble neg (FNum f p) = (if neg then ''-'' else []) @ renderDigits (shortest f p)"

text \<open>\<^verbatim>\<open>String(x)\<close> and \<^verbatim>\<open>JSON.stringify(x)\<close> for the number a literal is read as.\<close>

definition numberToString :: "string \<Rightarrow> string" where
  "numberToString lit = showDouble (fst (decimalOf lit)) (doubleOf lit)"

definition renderNumber :: "string \<Rightarrow> string" where
  "renderNumber lit = (if doubleOf lit = FInf then ''null'' else numberToString lit)"

text \<open>A number is falsy when it is zero, as a literal too small for a double is.\<close>

definition numIsZero :: "string \<Rightarrow> bool" where
  "numIsZero lit = (doubleOf lit = FZero)"

subsection \<open>\<^verbatim>\<open>JSON.stringify(value, null, 2)\<close>\<close>

definition hexDigit :: "nat \<Rightarrow> char" where
  "hexDigit n = ''0123456789abcdef'' ! (n mod 16)"

definition escapeChar :: "char \<Rightarrow> string" where
  "escapeChar c =
     (if c = DQ then [BSL, DQ]
      else if c = BSL then [BSL, BSL]
      else if c = CHR 0x08 then [BSL, CHR ''b'']
      else if c = CHR 0x0C then [BSL, CHR ''f'']
      else if c = CHR 0x0A then [BSL, CHR ''n'']
      else if c = CHR 0x0D then [BSL, CHR ''r'']
      else if c = CHR 0x09 then [BSL, CHR ''t'']
      else if (of_char c :: nat) < 32
        then [BSL, CHR ''u'', CHR ''0'', CHR ''0'',
              hexDigit (of_char c div 16), hexDigit (of_char c mod 16)]
      else [c])"

definition quote :: "string \<Rightarrow> string" where
  "quote s = DQ # concat (map escapeChar s) @ [DQ]"

definition spaces :: "nat \<Rightarrow> string" where
  "spaces n = replicate n (CHR '' '')"

text \<open>\<open>ind\<close> is the indentation of the line the value starts on.\<close>

fun stringify :: "nat \<Rightarrow> json \<Rightarrow> string"
  and stringifyElems :: "nat \<Rightarrow> json list \<Rightarrow> string"
  and stringifyMembers :: "nat \<Rightarrow> members \<Rightarrow> string" where
  "stringify ind JNull = ''null''"
| "stringify ind (JBool b) = (if b then ''true'' else ''false'')"
| "stringify ind (JNum lit) = renderNumber lit"
| "stringify ind (JStr s) = quote s"
| "stringify ind (JArr xs) =
     (if xs = [] then ''[]''
      else ''['' @ [NL] @ stringifyElems (ind + 2) xs @ [NL] @ spaces ind @ '']'')"
| "stringify ind (JObj kvs) =
     (if kvs = [] then ''{}''
      else ''{'' @ [NL] @ stringifyMembers (ind + 2) kvs @ [NL] @ spaces ind @ ''}'')"
| "stringifyElems ind [] = []"
| "stringifyElems ind [x] = spaces ind @ stringify ind x"
| "stringifyElems ind (x # y # ys) =
     spaces ind @ stringify ind x @ '','' @ [NL] @ stringifyElems ind (y # ys)"
| "stringifyMembers ind [] = []"
| "stringifyMembers ind [(k, v)] = spaces ind @ quote k @ '': '' @ stringify ind v"
| "stringifyMembers ind ((k, v) # kv # kvs) =
     spaces ind @ quote k @ '': '' @ stringify ind v @ '','' @ [NL]
       @ stringifyMembers ind (kv # kvs)"

definition JSON_stringify :: "json \<Rightarrow> string" where
  "JSON_stringify v = stringify 0 v"

subsection \<open>\<^verbatim>\<open>JSON.parse\<close>\<close>

datatype token =
    TLBrace | TRBrace | TLBrack | TRBrack | TColon | TComma
  | TString string | TNumber string | TTrue | TFalse | TNull

definition hexDigitVal :: "char \<Rightarrow> nat option" where
  "hexDigitVal c =
     (let n = (of_char c :: nat)
      in if 48 \<le> n \<and> n \<le> 57 then Some (n - 48)
         else if 97 \<le> n \<and> n \<le> 102 then Some (n - 87)
         else if 65 \<le> n \<and> n \<le> 70 then Some (n - 55)
         else None)"

definition hex4 :: "char \<Rightarrow> char \<Rightarrow> char \<Rightarrow> char \<Rightarrow> nat option" where
  "hex4 a b c d =
     (case (hexDigitVal a, hexDigitVal b, hexDigitVal c, hexDigitVal d) of
        (Some w, Some x, Some y, Some z) \<Rightarrow> Some (((w * 16 + x) * 16 + y) * 16 + z)
      | _ \<Rightarrow> None)"

text \<open>
  The body of a string literal, after the opening quote: the decoded string and
  the text after the closing quote. A \<^verbatim>\<open>\u\<close> escape above \<^verbatim>\<open>00ff\<close> has no
  8-bit character and is refused.
\<close>

definition simpleEscape :: "char \<Rightarrow> char option" where
  "simpleEscape e =
     map_of [(DQ, DQ), (BSL, BSL), (CHR ''/'', CHR ''/''), (CHR ''b'', CHR 0x08),
             (CHR ''f'', CHR 0x0C), (CHR ''n'', CHR 0x0A), (CHR ''r'', CHR 0x0D),
             (CHR ''t'', CHR 0x09)] e"

fun lexStr :: "string \<Rightarrow> string \<Rightarrow> (string \<times> string) option"
  and lexEsc :: "string \<Rightarrow> string \<Rightarrow> (string \<times> string) option" where
  "lexStr acc [] = None"
| "lexStr acc (c # cs) =
     (if c = DQ then Some (acc, cs)
      else if c = BSL then lexEsc acc cs
      else if (of_char c :: nat) < 32 then None
      else lexStr (acc @ [c]) cs)"
| "lexEsc acc [] = None"
| "lexEsc acc (e # cs) =
     (case simpleEscape e of
        Some c \<Rightarrow> lexStr (acc @ [c]) cs
      | None \<Rightarrow>
          if e = CHR ''u'' then
            (case cs of
               a # b # c # d # r \<Rightarrow>
                 (case hex4 a b c d of
                    Some n \<Rightarrow> if n < 256 then lexStr (acc @ [char_of n]) r else None
                  | None \<Rightarrow> None)
             | _ \<Rightarrow> None)
          else None)"

definition isNumChar :: "char \<Rightarrow> bool" where
  "isNumChar c = (c \<in> set ''0123456789+-.eE'')"

definition isSpace :: "char \<Rightarrow> bool" where
  "isSpace c = (c = CHR '' '' \<or> c = CHR 0x09 \<or> c = CHR 0x0A \<or> c = CHR 0x0D)"

text \<open>The JSON number grammar: sign, integer part, fraction, exponent.\<close>

definition validExp :: "string \<Rightarrow> bool" where
  "validExp s =
     (case s of
        [] \<Rightarrow> True
      | e # r \<Rightarrow>
          (e = CHR ''e'' \<or> e = CHR ''E'') \<and>
          (let ds = (case r of
                       [] \<Rightarrow> []
                     | c # r' \<Rightarrow> if c = CHR ''+'' \<or> c = CHR ''-'' then r' else r)
           in ds \<noteq> [] \<and> list_all isDigit ds))"

definition validFrac :: "string \<Rightarrow> bool" where
  "validFrac s =
     (case s of
        [] \<Rightarrow> True
      | c # r \<Rightarrow>
          if c = CHR ''.''
          then takeWhile isDigit r \<noteq> [] \<and> validExp (dropWhile isDigit r)
          else validExp s)"

definition validNumber :: "string \<Rightarrow> bool" where
  "validNumber lit =
     (let s = (case lit of [] \<Rightarrow> [] | c # r \<Rightarrow> if c = CHR ''-'' then r else lit);
          ip = takeWhile isDigit s
      in ip \<noteq> [] \<and> (length ip = 1 \<or> hd ip \<noteq> CHR ''0'') \<and> validFrac (dropWhile isDigit s))"

lemma lexStr_shorter:
  "lexStr acc cs = Some (s, r) \<Longrightarrow> length r < length cs"
  "lexEsc acc cs = Some (s, r) \<Longrightarrow> length r \<le> length cs"
proof (induction acc cs and acc cs arbitrary: s r and s r rule: lexStr_lexEsc.induct)
  case (1 acc)
  then show ?case by simp
next
  case (2 acc c cs)
  show ?case
  proof (cases "c = DQ")
    case True
    with "2.prems" show ?thesis by simp
  next
    case nq: False
    show ?thesis
    proof (cases "c = BSL")
      case True
      with nq "2.prems" have "lexEsc acc cs = Some (s, r)" by simp
      from "2.IH"(1) [OF nq True this] show ?thesis by simp
    next
      case nb: False
      with nq "2.prems" have lt: "\<not> (of_char c :: nat) < 32" and
        e: "lexStr (acc @ [c]) cs = Some (s, r)"
        by (auto split: if_splits)
      from "2.IH"(2) [OF nq nb lt e] show ?thesis by simp
    qed
  qed
next
  case (3 acc)
  then show ?case by simp
next
  case (4 acc e cs)
  show ?case
  proof (cases "simpleEscape e")
    case (Some c)
    with "4.prems" have "lexStr (acc @ [c]) cs = Some (s, r)" by simp
    from "4.IH"(2) [OF Some this] show ?thesis by simp
  next
    case None
    with "4.prems" have u: "e = CHR ''u''" by (simp split: if_splits)
    from "4.prems" None u obtain a b c d r' n where
      cs: "cs = a # b # c # d # r'" and h: "hex4 a b c d = Some n" and n: "n < 256"
      and l: "lexStr (acc @ [char_of n]) r' = Some (s, r)"
      by (auto split: list.splits option.splits if_splits)
    have "length r < length r'"
      by (rule "4.IH"(1) [OF None u cs refl refl refl h n l])
    with cs show ?thesis by simp
  qed
qed

function lexJSON :: "string \<Rightarrow> token list option" where
  "lexJSON [] = Some []"
| "lexJSON (c # cs) =
     (if isSpace c then lexJSON cs
      else if c = CHR ''{'' then map_option (Cons TLBrace) (lexJSON cs)
      else if c = CHR ''}'' then map_option (Cons TRBrace) (lexJSON cs)
      else if c = CHR ''['' then map_option (Cons TLBrack) (lexJSON cs)
      else if c = CHR '']'' then map_option (Cons TRBrack) (lexJSON cs)
      else if c = CHR '':'' then map_option (Cons TColon) (lexJSON cs)
      else if c = CHR '','' then map_option (Cons TComma) (lexJSON cs)
      else if c = DQ then
        (case lexStr [] cs of
           None \<Rightarrow> None
         | Some (s, r) \<Rightarrow> map_option (Cons (TString s)) (lexJSON r))
      else if c = CHR ''t'' then
        (if prefix ''rue'' cs then map_option (Cons TTrue) (lexJSON (drop 3 cs)) else None)
      else if c = CHR ''f'' then
        (if prefix ''alse'' cs then map_option (Cons TFalse) (lexJSON (drop 4 cs)) else None)
      else if c = CHR ''n'' then
        (if prefix ''ull'' cs then map_option (Cons TNull) (lexJSON (drop 3 cs)) else None)
      else if c = CHR ''-'' \<or> isDigit c then
        (if validNumber (c # takeWhile isNumChar cs)
         then map_option (Cons (TNumber (c # takeWhile isNumChar cs)))
                (lexJSON (dropWhile isNumChar cs))
         else None)
      else None)"
  by pat_completeness auto
termination
  by (relation "measure length")
     (auto dest: lexStr_shorter(1) simp: length_dropWhile_le less_Suc_eq_le)

text \<open>
  The parser reads the tokens with a stack of the containers that are open:
  an array with the elements read so far, an object with its members read so far
  and the key whose value is being read. A repeated key overwrites the earlier
  value, as in JavaScript.
\<close>

datatype frame = InArr "json list" | InObj members string

fun parseValue :: "frame list \<Rightarrow> token list \<Rightarrow> json option"
  and reduce :: "json \<Rightarrow> frame list \<Rightarrow> token list \<Rightarrow> json option" where
  "parseValue st [] = None"
| "parseValue st (t # ts) =
     (case t of
        TString s \<Rightarrow> reduce (JStr s) st ts
      | TNumber n \<Rightarrow> reduce (JNum n) st ts
      | TTrue \<Rightarrow> reduce (JBool True) st ts
      | TFalse \<Rightarrow> reduce (JBool False) st ts
      | TNull \<Rightarrow> reduce JNull st ts
      | TLBrack \<Rightarrow>
          (case ts of
             TRBrack # ts' \<Rightarrow> reduce (JArr []) st ts'
           | _ \<Rightarrow> parseValue (InArr [] # st) ts)
      | TLBrace \<Rightarrow>
          (case ts of
             TRBrace # ts' \<Rightarrow> reduce (JObj []) st ts'
           | TString k # TColon # ts' \<Rightarrow> parseValue (InObj [] k # st) ts'
           | _ \<Rightarrow> None)
      | _ \<Rightarrow> None)"
| "reduce v [] ts = (if ts = [] then Some v else None)"
| "reduce v (InArr acc # st) ts =
     (case ts of
        TComma # ts' \<Rightarrow> parseValue (InArr (acc @ [v]) # st) ts'
      | TRBrack # ts' \<Rightarrow> reduce (JArr (acc @ [v])) st ts'
      | _ \<Rightarrow> None)"
| "reduce v (InObj acc k # st) ts =
     (case ts of
        TComma # TString k' # TColon # ts' \<Rightarrow> parseValue (InObj (objSet acc k v) k' # st) ts'
      | TRBrace # ts' \<Rightarrow> reduce (JObj (objSet acc k v)) st ts'
      | _ \<Rightarrow> None)"

definition JSON_parse :: "string \<Rightarrow> json option" where
  "JSON_parse s = (case lexJSON s of None \<Rightarrow> None | Some ts \<Rightarrow> parseValue [] ts)"

section \<open>JavaScript operations on JSON values\<close>

datatype error =
    ENOENT         \<comment> \<open>\<^verbatim>\<open>fs.readFileSync\<close> on a file that does not exist\<close>
  | SyntaxError    \<comment> \<open>\<^verbatim>\<open>JSON.parse\<close> on text that is not JSON\<close>
  | TypeError      \<comment> \<open>a property of \<^verbatim>\<open>null\<close> or \<^verbatim>\<open>undefined\<close>, or a call of a non-function\<close>
  | Exit1          \<comment> \<open>\<^verbatim>\<open>process.exit(1)\<close>: no code directory\<close>
  | OutOfModel     \<comment> \<open>the run leaves the part of JavaScript that is modelled\<close>

fun truthy :: "json \<Rightarrow> bool" where
  "truthy JNull = False"
| "truthy (JBool b) = b"
| "truthy (JNum lit) = (\<not> numIsZero lit)"
| "truthy (JStr s) = (s \<noteq> [])"
| "truthy (JArr xs) = True"
| "truthy (JObj kvs) = True"

text \<open>\<^verbatim>\<open>x || {}\<close>, where \<open>None\<close> is \<^verbatim>\<open>undefined\<close>.\<close>

definition orEmpty :: "json option \<Rightarrow> json" where
  "orEmpty x = (case x of None \<Rightarrow> JObj [] | Some v \<Rightarrow> if truthy v then v else JObj [])"

text \<open>
  \<^verbatim>\<open>value.name\<close> for the names the tools read (\<^verbatim>\<open>mcpServers\<close>,
  \<^verbatim>\<open>projects\<close>, \<^verbatim>\<open>env\<close>, \<^verbatim>\<open>global\<close>, \<^verbatim>\<open>codeDir\<close>): a member of an
  object, \<^verbatim>\<open>undefined\<close> on an array, a string, a number or a boolean, a
  \<^verbatim>\<open>TypeError\<close> on \<^verbatim>\<open>null\<close>. Properties inherited from
  \<^verbatim>\<open>Object.prototype\<close> are not modelled.
\<close>

fun getProp :: "json \<Rightarrow> string \<Rightarrow> error + json option" where
  "getProp JNull k = Inl TypeError"
| "getProp (JObj kvs) k = Inr (map_of kvs k)"
| "getProp v k = Inr None"

text \<open>
  \<^verbatim>\<open>value.name = x\<close> in sloppy mode, for the names the tools assign to
  (\<^verbatim>\<open>mcpServers\<close>, \<^verbatim>\<open>projects\<close>): sets the member of an object, is ignored
  on a string, a number or a boolean, and raises on \<^verbatim>\<open>null\<close>. An array gets a
  property that is no element: \<^verbatim>\<open>JSON.stringify\<close> does not write it, and where
  the tools read it back in the same run the model says so.
\<close>

fun setProp :: "json \<Rightarrow> string \<Rightarrow> json \<Rightarrow> error + json" where
  "setProp JNull k x = Inl TypeError"
| "setProp (JObj kvs) k x = Inr (JObj (objSet kvs k x))"
| "setProp v k x = Inr v"

function showNat :: "nat \<Rightarrow> string" where
  "showNat n =
     (if n < 10 then [''0123456789'' ! n]
      else showNat (n div 10) @ [''0123456789'' ! (n mod 10)])"
  by pat_completeness auto
termination
  by (relation "measure id") auto

text \<open>
  The own enumerable properties of a value that is not \<^verbatim>\<open>null\<close>, as
  \<^verbatim>\<open>Object.entries\<close>, \<^verbatim>\<open>Object.keys\<close>, \<^verbatim>\<open>Object.values\<close> and the spread
  \<^verbatim>\<open>{...value}\<close> enumerate them.
\<close>

fun ownEntries :: "json \<Rightarrow> members" where
  "ownEntries (JObj kvs) = kvs"
| "ownEntries (JArr xs) = zip (map showNat [0..<length xs]) xs"
| "ownEntries (JStr s) = zip (map showNat [0..<length s]) (map (\<lambda>c. JStr [c]) s)"
| "ownEntries v = []"

text \<open>\<^verbatim>\<open>{...a, ...b}\<close>: a fresh object that receives the properties of \<open>a\<close>, then of \<open>b\<close>.\<close>

definition spreadMembers :: "(string \<times> 'a) list \<Rightarrow> (string \<times> 'a) list \<Rightarrow> (string \<times> 'a) list" where
  "spreadMembers a b = foldl (\<lambda>acc (k, v). objSet acc k v) [] (a @ b)"

definition spread2 :: "json \<Rightarrow> json \<Rightarrow> json" where
  "spread2 a b = JObj (spreadMembers (ownEntries a) (ownEntries b))"

text \<open>
  \<^verbatim>\<open>String(value)\<close>, as \<^verbatim>\<open>str.replace(re, value)\<close> applies it to a replacement
  that is no string: an array is its elements joined by commas, \<^verbatim>\<open>null\<close> among
  them as the empty string.
\<close>

fun toStringJS :: "json \<Rightarrow> string"
  and joinElems :: "json list \<Rightarrow> string" where
  "toStringJS JNull = ''null''"
| "toStringJS (JBool b) = (if b then ''true'' else ''false'')"
| "toStringJS (JNum lit) = numberToString lit"
| "toStringJS (JStr s) = s"
| "toStringJS (JArr xs) = joinElems xs"
| "toStringJS (JObj kvs) = ''[object Object]''"
| "joinElems [] = []"
| "joinElems [x] = (if x = JNull then [] else toStringJS x)"
| "joinElems (x # y # ys) = (if x = JNull then [] else toStringJS x) @ '','' @ joinElems (y # ys)"

text \<open>
  The names every object inherits from \<^verbatim>\<open>Object.prototype\<close>. Reading or
  assigning one of them as a key that comes from the data reaches the prototype,
  which the model does not represent; a run that does so is outside the model.
\<close>

definition protoNames :: "string list" where
  "protoNames =
     [''__proto__'', ''constructor'', ''hasOwnProperty'', ''isPrototypeOf'',
      ''propertyIsEnumerable'', ''toLocaleString'', ''toString'', ''valueOf'',
      ''__defineGetter__'', ''__defineSetter__'', ''__lookupGetter__'', ''__lookupSetter__'']"

section \<open>Files and console output\<close>

text \<open>
  The four files the tools read and write, each absent or holding text, and the
  other paths that exist (the candidate code directories, the project
  directories), which is what \<^verbatim>\<open>fs.existsSync\<close> answers from.
\<close>

record files =
  liveConfig :: "string option"          \<comment> \<open>\<^verbatim>\<open>~/.claude.json\<close>, the live configuration\<close>
  snapshotFile :: "string option"        \<comment> \<open>\<^verbatim>\<open>mcp-servers.json\<close>, the Portable Snapshot\<close>
  secretsFile :: "string option"         \<comment> \<open>\<^verbatim>\<open>mcp-secrets.json\<close>, the Secrets Store\<close>
  machineConfigFile :: "string option"   \<comment> \<open>\<^verbatim>\<open>machine-config.json\<close>, the Machine Config\<close>
  existingPaths :: "string list"

definition existsSync :: "files \<Rightarrow> string \<Rightarrow> bool" where
  "existsSync fs path = (path \<in> set (existingPaths fs))"

text \<open>The lines the tools print, one constructor for each.\<close>

datatype msg =
    ErrNoCodeDir
  | AutoDetected string
  | SavedMachineConfig
  | MachineConfigLine string string
  | Exported
  | GlobalServers nat
  | ProjectConfigs nat
  | SecretsFound "string list"
  | FilesLegend
  | SubstitutedSecrets "string list"
  | WarnNoSecretsFile
  | RestoredGlobal nat
  | RestoredProjects nat
  | SkippedProjects nat
  | SavedTo

text \<open>
  A run ends with the files as it left them, the lines it printed, and the error
  that stopped it, if any.
\<close>

record run =
  filesAfter :: files
  printed :: "msg list"
  failure :: "error option"

text \<open>\<^verbatim>\<open>path.join(HOME, d)\<close> for a normalised home directory and a plain name.\<close>

definition pathJoin :: "string \<Rightarrow> string \<Rightarrow> string" where
  "pathJoin dir d = (if dir \<noteq> [] \<and> last dir = CHR ''/'' then dir @ d else dir @ ''/'' @ d)"

definition candidates :: "string \<Rightarrow> string list" where
  "candidates HOME = map (pathJoin HOME) [''code'', ''repos'', ''projects'', ''src'']"

subsection \<open>Loading the Machine Config (both tools, lines 11 to 27 of the Restorer)\<close>

text \<open>
  The result is the files, the lines printed, and the code directory or the error.
  \<open>verbose\<close> is the Extractor, which prints one more line. A Machine Config
  whose \<^verbatim>\<open>codeDir\<close> is missing or no string is outside the model.
\<close>

definition loadMachineConfig ::
  "bool \<Rightarrow> string \<Rightarrow> files \<Rightarrow> files \<times> msg list \<times> (error + string)" where
  "loadMachineConfig verbose HOME fs =
     (case machineConfigFile fs of
        Some txt \<Rightarrow>
          (case JSON_parse txt of
             None \<Rightarrow> (fs, [], Inl SyntaxError)
           | Some machineConfig \<Rightarrow>
               (case getProp machineConfig ''codeDir'' of
                  Inl e \<Rightarrow> (fs, [], Inl e)
                | Inr (Some (JStr codeDir)) \<Rightarrow> (fs, [], Inr codeDir)
                | Inr _ \<Rightarrow> (fs, [], Inl OutOfModel)))
      | None \<Rightarrow>
          (case find (existsSync fs) (candidates HOME) of
             None \<Rightarrow> (fs, [ErrNoCodeDir], Inl Exit1)
           | Some codeDir \<Rightarrow>
               (fs\<lparr>machineConfigFile :=
                     Some (JSON_stringify (JObj [(''codeDir'', JStr codeDir)]))\<rparr>,
                AutoDetected codeDir # (if verbose then [SavedMachineConfig] else []),
                Inr codeDir)))"

section \<open>The Extractor\<close>

definition alnum :: string where
  "alnum = ''ABCDEFGHIJKLMNOPQRSTUVWXYZabcdefghijklmnopqrstuvwxyz0123456789''"

text \<open>The table of secret patterns: literal, character class, symbolic name.\<close>

definition SECRET_PATTERNS :: "(string \<times> string \<times> string) list" where
  "SECRET_PATTERNS =
     [(''sk_test_'', alnum, ''STRIPE_TEST_API_KEY''),
      (''sk_live_'', alnum, ''STRIPE_LIVE_API_KEY''),
      (''rk_test_'', alnum, ''STRIPE_TEST_RESTRICTED_KEY''),
      (''rk_live_'', alnum, ''STRIPE_LIVE_RESTRICTED_KEY''),
      (''whsec_'', alnum, ''STRIPE_WEBHOOK_SECRET''),
      (''xoxc-'', alnum @ ''-'', ''SLACK_XOXC_TOKEN''),
      (''xoxd-'', alnum @ ''%+-'', ''SLACK_XOXD_TOKEN''),
      (''ATATT3x'', alnum @ ''_=+-'', ''JIRA_API_TOKEN'')]"

definition SECRET_ENV_KEYS :: "string list" where
  "SECRET_ENV_KEYS =
     [''JIRA_API_TOKEN'', ''JIRA_USERNAME'',
      ''LANGFUSE_SECRET_KEY'', ''LANGFUSE_PUBLIC_KEY'',
      ''TWILIO_AUTH_TOKEN'', ''TWILIO_ACCOUNT_SID'']"

type_synonym secrets = "(string \<times> string) list"

definition placeholder :: "string \<Rightarrow> string" where
  "placeholder name = ''${'' @ name @ ''}''"

text \<open>The loop of \<^verbatim>\<open>extractSecrets\<close> over the table.\<close>

fun extractSecretsLoop ::
  "(string \<times> string \<times> string) list \<Rightarrow> string \<Rightarrow> secrets \<Rightarrow> string \<times> secrets" where
  "extractSecretsLoop [] str secrets = (str, secrets)"
| "extractSecretsLoop ((pfx, cls, name) # rest) str secrets =
     (case gmatch (reClass pfx cls) str of
        [] \<Rightarrow> extractSecretsLoop rest str secrets
      | first # others \<Rightarrow>
          extractSecretsLoop rest
            (replaceJS (reClass pfx cls) (placeholder name) str)
            (objSet secrets name first))"

definition extractSecrets :: "string \<Rightarrow> string \<times> secrets" where
  "extractSecrets str = extractSecretsLoop SECRET_PATTERNS str []"

definition abstractPaths :: "string \<Rightarrow> string \<Rightarrow> string \<Rightarrow> string" where
  "abstractPaths codeDir HOME str =
     (let str1 = joinJS ''${CODE_DIR}'' (splitJS codeDir str);
          str2 = joinJS ''${HOME}'' (splitJS HOME str1)
      in str2)"

text \<open>
  The loop that collects the project-specific servers (lines 154 to 158). The
  assignment \<^verbatim>\<open>allMcp.projects["__proto__"] = ...\<close> would set the prototype
  of the object and add no member.
\<close>

fun collectProjects :: "members \<Rightarrow> members \<Rightarrow> error + members" where
  "collectProjects [] acc = Inr acc"
| "collectProjects ((projPath, proj) # rest) acc =
     (if projPath \<noteq> ''*'' then
        (case getProp proj ''mcpServers'' of
           Inl e \<Rightarrow> Inl e
         | Inr None \<Rightarrow> collectProjects rest acc
         | Inr (Some mcpServers) \<Rightarrow>
             if truthy mcpServers \<and> ownEntries mcpServers \<noteq> []
             then (if projPath = ''__proto__'' then Inl OutOfModel
                   else collectProjects rest (objSet acc projPath mcpServers))
             else collectProjects rest acc)
      else collectProjects rest acc)"

text \<open>
  \<^verbatim>\<open>extractEnvSecrets\<close>. The loop over \<^verbatim>\<open>Object.entries(node.env)\<close>: a value
  that is truthy and no string has no \<^verbatim>\<open>startsWith\<close>, and calling it raises.
\<close>

fun envEntries :: "members \<Rightarrow> secrets \<Rightarrow> error + members \<times> secrets" where
  "envEntries [] secrets = Inr ([], secrets)"
| "envEntries ((key, value) # rest) secrets =
     (if key \<in> set SECRET_ENV_KEYS \<and> truthy value then
        (case value of
           JStr s \<Rightarrow>
             if \<not> prefix ''${'' s then
               (case envEntries rest (objSet secrets key s) of
                  Inl e \<Rightarrow> Inl e
                | Inr (rest', secrets') \<Rightarrow>
                    Inr ((key, JStr (placeholder key)) # rest', secrets'))
             else
               (case envEntries rest secrets of
                  Inl e \<Rightarrow> Inl e
                | Inr (rest', secrets') \<Rightarrow> Inr ((key, value) # rest', secrets'))
         | _ \<Rightarrow> Inl TypeError)
      else
        (case envEntries rest secrets of
           Inl e \<Rightarrow> Inl e
         | Inr (rest', secrets') \<Rightarrow> Inr ((key, value) # rest', secrets')))"

text \<open>
  The first half of \<^verbatim>\<open>walk\<close>, on the members of an object node. When
  \<^verbatim>\<open>node.env\<close> is an array its keys are indices, none of them a secret key, and
  nothing changes.
\<close>

definition envPhase :: "members \<Rightarrow> secrets \<Rightarrow> error + members \<times> secrets" where
  "envPhase kvs secrets =
     (case map_of kvs ''env'' of
        Some (JObj env) \<Rightarrow>
          (case envEntries env secrets of
             Inl e \<Rightarrow> Inl e
           | Inr (env', secrets') \<Rightarrow> Inr (objSet kvs ''env'' (JObj env'), secrets'))
      | _ \<Rightarrow> Inr (kvs, secrets))"

fun nodes :: "json \<Rightarrow> nat"
  and nodesList :: "json list \<Rightarrow> nat"
  and nodesMembers :: "members \<Rightarrow> nat" where
  "nodes (JArr xs) = Suc (nodesList xs)"
| "nodes (JObj kvs) = Suc (nodesMembers kvs)"
| "nodes v = 1"
| "nodesList [] = 0"
| "nodesList (x # xs) = nodes x + nodesList xs"
| "nodesMembers [] = 0"
| "nodesMembers ((k, v) # kvs) = nodes v + nodesMembers kvs"

lemma nodes_pos: "0 < nodes v"
  by (cases v) auto

lemma nodesList_map_snd: "nodesList (map snd kvs) = nodesMembers kvs"
  by (induction kvs) auto

lemma nodesMembers_envEntries:
  "envEntries env secrets = Inr (env', secrets') \<Longrightarrow> nodesMembers env' = nodesMembers env"
proof (induction env secrets arbitrary: env' secrets' rule: envEntries.induct)
  case (1 secrets)
  then show ?case by simp
next
  case (2 key "value" rest secrets)
  show ?case
  proof (cases "key \<in> set SECRET_ENV_KEYS \<and> truthy value")
    case False
    with "2.prems" obtain r where r: "envEntries rest secrets = Inr (r, secrets')"
      and e: "env' = (key, value) # r"
      by (auto split: sum.splits)
    from "2.IH"(3) [OF False r] e show ?thesis by simp
  next
    case True
    with "2.prems" obtain s where s: "value = JStr s"
      by (cases "value") auto
    show ?thesis
    proof (cases "prefix ''${'' s")
      case pre: True
      with True s "2.prems" obtain r where r: "envEntries rest secrets = Inr (r, secrets')"
        and e: "env' = (key, value) # r"
        by (auto split: sum.splits)
      from "2.IH"(2) [OF True s _ r] pre e show ?thesis by simp
    next
      case npre: False
      with True s "2.prems" obtain r where
        r: "envEntries rest (objSet secrets key s) = Inr (r, secrets')"
        and e: "env' = (key, JStr (placeholder key)) # r"
        by (auto split: sum.splits)
      from "2.IH"(1) [OF True s npre r] s e show ?thesis by simp
    qed
  qed
qed

lemma nodesMembers_updateKey:
  "map_of kvs k = Some v \<Longrightarrow> nodes v' = nodes v \<Longrightarrow>
   nodesMembers (updateKey kvs k v') = nodesMembers kvs"
  by (induction kvs) (auto split: if_splits)

lemma nodesMembers_objSet:
  assumes "map_of kvs k = Some v" and "nodes v' = nodes v"
  shows "nodesMembers (objSet kvs k v') = nodesMembers kvs"
proof -
  from assms(1) have "(k, v) \<in> set kvs" by (rule map_of_SomeD)
  then have "k \<in> fst ` set kvs" by force
  then show ?thesis by (simp add: objSet_def nodesMembers_updateKey [OF assms])
qed

lemma nodesMembers_envPhase:
  "envPhase kvs secrets = Inr (kvs', secrets') \<Longrightarrow> nodesMembers kvs' = nodesMembers kvs"
  unfolding envPhase_def
  by (auto split: option.splits json.splits sum.splits
           dest!: nodesMembers_envEntries intro!: nodesMembers_objSet)

text \<open>
  \<^verbatim>\<open>walk\<close>: the secrets of the node's own \<^verbatim>\<open>env\<close> first, then every value of
  the node in turn. The node is returned as the walk leaves it.
\<close>

function walk :: "json \<Rightarrow> secrets \<Rightarrow> error + json \<times> secrets"
  and walkValues :: "json list \<Rightarrow> secrets \<Rightarrow> error + json list \<times> secrets" where
  "walk node secrets =
     (case node of
        JObj kvs \<Rightarrow>
          (case envPhase kvs secrets of
             Inl e \<Rightarrow> Inl e
           | Inr (kvs1, secrets1) \<Rightarrow>
               (case walkValues (map snd kvs1) secrets1 of
                  Inl e \<Rightarrow> Inl e
                | Inr (vals, secrets2) \<Rightarrow> Inr (JObj (zip (map fst kvs1) vals), secrets2)))
      | JArr xs \<Rightarrow>
          (case walkValues xs secrets of
             Inl e \<Rightarrow> Inl e
           | Inr (vals, secrets1) \<Rightarrow> Inr (JArr vals, secrets1))
      | _ \<Rightarrow> Inr (node, secrets))"
| "walkValues [] secrets = Inr ([], secrets)"
| "walkValues (val # vals) secrets =
     (case walk val secrets of
        Inl e \<Rightarrow> Inl e
      | Inr (val', secrets1) \<Rightarrow>
          (case walkValues vals secrets1 of
             Inl e \<Rightarrow> Inl e
           | Inr (vals', secrets2) \<Rightarrow> Inr (val' # vals', secrets2)))"
  by pat_completeness auto
termination
  by (relation "measure (case_sum (\<lambda>(node, secrets). 2 * nodes node)
                                  (\<lambda>(vals, secrets). 2 * nodesList vals + 1))")
     (auto simp: nodesList_map_snd nodesMembers_envPhase nodes_pos)

definition extractEnvSecrets :: "json \<Rightarrow> error + json \<times> secrets" where
  "extractEnvSecrets obj = walk obj []"

text \<open>Lines 147 to 158: the servers of the live configuration, in the snapshot's shape.\<close>

definition collect :: "json \<Rightarrow> error + json" where
  "collect config =
     (case getProp config ''mcpServers'' of
        Inl e \<Rightarrow> Inl e
      | Inr mcpServers \<Rightarrow>
          (case getProp config ''projects'' of
             Inl e \<Rightarrow> Inl e
           | Inr projects \<Rightarrow>
               (case collectProjects (ownEntries (orEmpty projects)) [] of
                  Inl e \<Rightarrow> Inl e
                | Inr projs \<Rightarrow>
                    Inr (JObj [(''global'', orEmpty mcpServers), (''projects'', JObj projs)]))))"

definition member :: "json \<Rightarrow> string \<Rightarrow> json" where
  "member v k = (case getProp v k of Inr (Some x) \<Rightarrow> x | _ \<Rightarrow> JNull)"

definition stop :: "files \<Rightarrow> msg list \<Rightarrow> error \<Rightarrow> run" where
  "stop fs out e = \<lparr>filesAfter = fs, printed = out, failure = Some e\<rparr>"

definition secretsJson :: "secrets \<Rightarrow> json" where
  "secretsJson secrets = JObj (map (\<lambda>(k, v). (k, JStr v)) secrets)"

text \<open>Lines 194 to 203: the merge into the Secrets Store, after the snapshot is written.\<close>

definition mergeSecrets :: "secrets \<Rightarrow> files \<Rightarrow> msg list \<Rightarrow> run" where
  "mergeSecrets secrets fs out =
     (if secrets \<noteq> [] then
        (case (case secretsFile fs of
                 None \<Rightarrow> Some (JObj [])
               | Some txt \<Rightarrow> JSON_parse txt) of
           None \<Rightarrow> stop fs out SyntaxError
         | Some existingSecrets \<Rightarrow>
             \<lparr>filesAfter =
                fs\<lparr>secretsFile :=
                     Some (JSON_stringify (spread2 existingSecrets (secretsJson secrets)))\<rparr>,
              printed = out @ [SecretsFound (map fst secrets), FilesLegend],
              failure = None\<rparr>)
      else \<lparr>filesAfter = fs, printed = out @ [FilesLegend], failure = None\<rparr>)"

text \<open>
  Lines 85 to 184: the Machine Config, the live configuration, the servers
  collected, the secrets of the \<^verbatim>\<open>env\<close> mappings moved out, and the snapshot
  serialized with its paths abstracted. The result is the snapshot object, the
  secrets found by key name, and the text \<^verbatim>\<open>jsonStr\<close>.
\<close>

definition serialize ::
  "string \<Rightarrow> files \<Rightarrow> files \<times> msg list \<times> (error + json \<times> secrets \<times> string)" where
  "serialize HOME fs0 =
     (case loadMachineConfig True HOME fs0 of
        (fs1, out1, Inl e) \<Rightarrow> (fs1, out1, Inl e)
      | (fs1, out1, Inr codeDir) \<Rightarrow>
          (case liveConfig fs1 of
             None \<Rightarrow> (fs1, out1, Inl ENOENT)
           | Some txt \<Rightarrow>
               (case JSON_parse txt of
                  None \<Rightarrow> (fs1, out1, Inl SyntaxError)
                | Some config \<Rightarrow>
                    (case collect config of
                       Inl e \<Rightarrow> (fs1, out1, Inl e)
                     | Inr allMcp0 \<Rightarrow>
                         (case extractEnvSecrets allMcp0 of
                            Inl e \<Rightarrow> (fs1, out1, Inl e)
                          | Inr (allMcp, envSecrets) \<Rightarrow>
                              (fs1, out1,
                               Inr (allMcp, envSecrets,
                                    abstractPaths codeDir HOME (JSON_stringify allMcp))))))))"

text \<open>The Extractor, from the first line to the last.\<close>

definition extractMcp :: "string \<Rightarrow> files \<Rightarrow> run" where
  "extractMcp HOME fs0 =
     (case serialize HOME fs0 of
        (fs1, out1, Inl e) \<Rightarrow> stop fs1 out1 e
      | (fs1, out1, Inr (allMcp, envSecrets, jsonStr)) \<Rightarrow>
          (let (sanitized, patternSecrets) = extractSecrets jsonStr;
               secrets = spreadMembers envSecrets patternSecrets;
               fs2 = fs1\<lparr>snapshotFile := Some sanitized\<rparr>;
               out2 = out1 @
                 [Exported,
                  GlobalServers (length (ownEntries (member allMcp ''global''))),
                  ProjectConfigs (length (ownEntries (member allMcp ''projects'')))]
           in mergeSecrets secrets fs2 out2))"

section \<open>The Restorer\<close>

text \<open>
  The characters with a meaning in a regular expression. A key of the Secrets
  Store that has one makes \<^verbatim>\<open>new RegExp("\\$\\{" + key + "\\}", "g")\<close> something
  else than a search for the placeholder, or no regular expression at all; such a
  run is outside the model. A value that is no string is replaced as the string
  JavaScript makes of it.
\<close>

definition regexSafe :: "string \<Rightarrow> bool" where
  "regexSafe key = list_all (\<lambda>c. c \<notin> set (''^$.*+?()[]{}|'' @ [BSL])) key"

fun substituteSecrets :: "members \<Rightarrow> string \<Rightarrow> error + string" where
  "substituteSecrets [] backupStr = Inr backupStr"
| "substituteSecrets ((key, value) # rest) backupStr =
     (if regexSafe key
      then substituteSecrets rest
             (replaceJS (reLit (placeholder key)) (toStringJS value) backupStr)
      else Inl OutOfModel)"

text \<open>Lines 59 to 63: the global servers.\<close>

definition restoreGlobal :: "json \<Rightarrow> json \<Rightarrow> error + json \<times> msg list" where
  "restoreGlobal backup config =
     (case getProp backup ''global'' of
        Inl e \<Rightarrow> Inl e
      | Inr None \<Rightarrow> Inr (config, [])
      | Inr (Some global) \<Rightarrow>
          if truthy global \<and> ownEntries global \<noteq> [] then
            (case getProp config ''mcpServers'' of
               Inl e \<Rightarrow> Inl e
             | Inr old \<Rightarrow>
                 (case setProp config ''mcpServers'' (spread2 (orEmpty old) global) of
                    Inl e \<Rightarrow> Inl e
                  | Inr config' \<Rightarrow>
                      Inr (config', [RestoredGlobal (length (ownEntries global))])))
          else Inr (config, []))"

text \<open>
  Lines 74 to 79: one project whose directory exists. When the configuration is
  an array, \<^verbatim>\<open>config.projects\<close> and all that is assigned under it are
  properties of the array that are no elements: nothing of it is written. The
  same holds when \<^verbatim>\<open>config.projects\<close> is an array, and when it is a string, a
  number or \<^verbatim>\<open>true\<close> the entry cannot be made and line 76 raises; a key without
  a slash could there be an index or a name of the prototype, which the model
  does not follow.
\<close>

definition falsy :: "json option \<Rightarrow> bool" where
  "falsy x = (case x of None \<Rightarrow> True | Some v \<Rightarrow> \<not> truthy v)"

definition plainKey :: "string \<Rightarrow> bool" where
  "plainKey k = (CHR ''/'' \<in> set k)"

definition restoreProject :: "string \<Rightarrow> json \<Rightarrow> json \<Rightarrow> error + json" where
  "restoreProject projPath mcpServers config =
     (case config of
        JArr elems \<Rightarrow> Inr config
      | _ \<Rightarrow>
     (case getProp config ''projects'' of
        Inl e \<Rightarrow> Inl e
      | Inr p0 \<Rightarrow>
          (case (if falsy p0 then setProp config ''projects'' (JObj []) else Inr config) of
             Inl e \<Rightarrow> Inl e
           | Inr config1 \<Rightarrow>
               (case getProp config1 ''projects'' of
                  Inl e \<Rightarrow> Inl e
                | Inr None \<Rightarrow> Inl TypeError
                | Inr (Some (JObj projects)) \<Rightarrow>
                    if projPath \<in> set protoNames \<and> projPath \<notin> fst ` set projects
                    then Inl OutOfModel
                    else
                      (let projects1 =
                             (if falsy (map_of projects projPath)
                              then objSet projects projPath (JObj [])
                              else projects)
                       in case map_of projects1 projPath of
                            None \<Rightarrow> Inl OutOfModel
                          | Some entry \<Rightarrow>
                              (case getProp entry ''mcpServers'' of
                                 Inl e \<Rightarrow> Inl e
                               | Inr old \<Rightarrow>
                                   (case setProp entry ''mcpServers''
                                           (spread2 (orEmpty old) mcpServers) of
                                      Inl e \<Rightarrow> Inl e
                                    | Inr entry' \<Rightarrow>
                                        setProp config1 ''projects''
                                          (JObj (objSet projects1 projPath entry')))))
                | Inr (Some (JArr elems)) \<Rightarrow>
                    if plainKey projPath then Inr config1 else Inl OutOfModel
                | Inr (Some other) \<Rightarrow>
                    if plainKey projPath then Inl TypeError else Inl OutOfModel))))"

text \<open>Lines 66 to 81: the loop over the projects of the snapshot, with its two counters.\<close>

fun restoreProjects ::
  "(string \<Rightarrow> bool) \<Rightarrow> members \<Rightarrow> json \<Rightarrow> nat \<Rightarrow> nat \<Rightarrow> error + json \<times> nat \<times> nat" where
  "restoreProjects ex [] config projectCount skipped = Inr (config, projectCount, skipped)"
| "restoreProjects ex ((projPath, mcpServers) # rest) config projectCount skipped =
     (if \<not> ex projPath then restoreProjects ex rest config projectCount (Suc skipped)
      else
        (case restoreProject projPath mcpServers config of
           Inl e \<Rightarrow> Inl e
         | Inr config' \<Rightarrow> restoreProjects ex rest config' (Suc projectCount) skipped))"

text \<open>Lines 31 to 49: the snapshot text with paths and secrets substituted.\<close>

definition substitutePaths :: "string \<Rightarrow> string \<Rightarrow> string \<Rightarrow> string" where
  "substitutePaths codeDir HOME backupStr =
     (let str1 = joinJS codeDir (splitJS ''${CODE_DIR}'' backupStr);
          str2 = joinJS HOME (splitJS ''${HOME}'' str1)
      in str2)"

definition substituteStore :: "files \<Rightarrow> string \<Rightarrow> error + string \<times> msg list" where
  "substituteStore fs backupStr =
     (case secretsFile fs of
        None \<Rightarrow> Inr (backupStr, [WarnNoSecretsFile])
      | Some txt \<Rightarrow>
          (case JSON_parse txt of
             None \<Rightarrow> Inl SyntaxError
           | Some JNull \<Rightarrow> Inl TypeError
           | Some secrets \<Rightarrow>
               (case substituteSecrets (ownEntries secrets) backupStr of
                  Inl e \<Rightarrow> Inl e
                | Inr str \<Rightarrow> Inr (str, [SubstitutedSecrets (map fst (ownEntries secrets))]))))"

text \<open>
  Lines 11 to 57: the Machine Config, the snapshot text with paths and secrets
  substituted and then parsed, and the live configuration as it is, or the empty
  object when there is none. The result is the parsed snapshot and the
  configuration to merge into.
\<close>

definition loadBackup ::
  "string \<Rightarrow> files \<Rightarrow> files \<times> msg list \<times> (error + json \<times> json)" where
  "loadBackup HOME fs0 =
     (case loadMachineConfig False HOME fs0 of
        (fs1, out1, Inl e) \<Rightarrow> (fs1, out1, Inl e)
      | (fs1, out1, Inr codeDir) \<Rightarrow>
          (let out2 = out1 @ [MachineConfigLine HOME codeDir]
           in case snapshotFile fs1 of
                None \<Rightarrow> (fs1, out2, Inl ENOENT)
              | Some backupStr \<Rightarrow>
                  (case substituteStore fs1 (substitutePaths codeDir HOME backupStr) of
                     Inl e \<Rightarrow> (fs1, out2, Inl e)
                   | Inr (str, out3) \<Rightarrow>
                       (case JSON_parse str of
                          None \<Rightarrow> (fs1, out2 @ out3, Inl SyntaxError)
                        | Some backup \<Rightarrow>
                            (case (case liveConfig fs1 of
                                     None \<Rightarrow> Some (JObj [])
                                   | Some txt \<Rightarrow> JSON_parse txt) of
                               None \<Rightarrow> (fs1, out2 @ out3, Inl SyntaxError)
                             | Some config \<Rightarrow> (fs1, out2 @ out3, Inr (backup, config)))))))"

text \<open>Lines 59 to 88: merge into the live configuration, write back.\<close>

definition mergeAndWrite :: "files \<Rightarrow> msg list \<Rightarrow> json \<Rightarrow> json \<Rightarrow> run" where
  "mergeAndWrite fs out backup config =
     (case restoreGlobal backup config of
        Inl e \<Rightarrow> stop fs out e
      | Inr (config1, out1) \<Rightarrow>
          (case getProp backup ''projects'' of
             Inl e \<Rightarrow> stop fs (out @ out1) e
           | Inr projects \<Rightarrow>
               (case restoreProjects (existsSync fs) (ownEntries (orEmpty projects))
                       config1 0 0 of
                  Inl e \<Rightarrow> stop fs (out @ out1) e
                | Inr (config2, projectCount, skipped) \<Rightarrow>
                    \<lparr>filesAfter = fs\<lparr>liveConfig := Some (JSON_stringify config2)\<rparr>,
                     printed = out @ out1 @ [RestoredProjects projectCount]
                       @ (if 0 < skipped then [SkippedProjects skipped] else [])
                       @ [SavedTo],
                     failure = None\<rparr>)))"

text \<open>The Restorer, from the first line to the last.\<close>

definition restoreMcp :: "string \<Rightarrow> files \<Rightarrow> run" where
  "restoreMcp HOME fs0 =
     (case loadBackup HOME fs0 of
        (fs1, out, Inl e) \<Rightarrow> stop fs1 out e
      | (fs1, out, Inr (backup, config)) \<Rightarrow> mergeAndWrite fs1 out backup config)"

text \<open>The entry of a project path in the \<^verbatim>\<open>projects\<close> mapping of a configuration.\<close>

definition projectEntry :: "json \<Rightarrow> string \<Rightarrow> json option" where
  "projectEntry config path =
     (case config of
        JObj kvs \<Rightarrow>
          (case map_of kvs ''projects'' of
             Some (JObj projects) \<Rightarrow> map_of projects path
           | _ \<Rightarrow> None)
      | _ \<Rightarrow> None)"

text \<open>A top-level field of a configuration.\<close>

definition field :: "json \<Rightarrow> string \<Rightarrow> json option" where
  "field config k = (case config of JObj kvs \<Rightarrow> map_of kvs k | _ \<Rightarrow> None)"

text \<open>
  The projects of a parsed snapshot, as the loop of the Restorer goes through
  them, and those of them whose directory exists, or does not.
\<close>

definition snapshotProjects :: "json \<Rightarrow> members" where
  "snapshotProjects backup = ownEntries (orEmpty (field backup ''projects''))"

definition present :: "files \<Rightarrow> members \<Rightarrow> members" where
  "present fs entries = filter (\<lambda>e. existsSync fs (fst e)) entries"

definition missing :: "files \<Rightarrow> members \<Rightarrow> members" where
  "missing fs entries = filter (\<lambda>e. \<not> existsSync fs (fst e)) entries"

text \<open>The lines of the Restorer that report a count of projects.\<close>

fun countLine :: "msg \<Rightarrow> bool" where
  "countLine (RestoredProjects n) = True"
| "countLine (SkippedProjects n) = True"
| "countLine m = False"

section \<open>Notions the properties are stated with\<close>

text \<open>
  The text between the matches of a global search: one piece before the first
  match, one after each match. \<open>weave\<close> puts pieces and fillers back together,
  so that a text is its gaps woven with its matches, and the text after a global
  replacement is the same gaps woven with the replacements.
\<close>

function gaps :: "matcher \<Rightarrow> string \<Rightarrow> string \<Rightarrow> string list" where
  "gaps m cur [] = [cur]"
| "gaps m cur (c # cs) =
     (case m (c # cs) of
        None \<Rightarrow> gaps m (cur @ [c]) cs
      | Some 0 \<Rightarrow> gaps m (cur @ [c]) cs
      | Some (Suc n) \<Rightarrow> cur # gaps m [] (drop n cs))"
  by pat_completeness auto
termination
  by (relation "measure (\<lambda>(m, cur, s). length s)") auto

fun weave :: "string list \<Rightarrow> string list \<Rightarrow> string" where
  "weave [] fills = []"
| "weave [g] fills = g"
| "weave (g # g' # gs) [] = g @ weave (g' # gs) []"
| "weave (g # g' # gs) (f # fills) = g @ f @ weave (g' # gs) fills"

definition noMatchAt :: "matcher \<Rightarrow> string \<Rightarrow> bool" where
  "noMatchAt m s = (m s = None \<or> m s = Some 0)"

text \<open>The whole of \<open>w\<close> is a match of \<^verbatim>\<open>/pfx[cls]+/\<close>.\<close>

definition matchesPattern :: "string \<Rightarrow> string \<Rightarrow> string \<Rightarrow> bool" where
  "matchesPattern pfx cls w =
     (prefix pfx w \<and> drop (length pfx) w \<noteq> [] \<and>
      list_all (\<lambda>c. c \<in> set cls) (drop (length pfx) w))"

text \<open>No place of the text starts a match of \<^verbatim>\<open>/pfx[cls]+/\<close>.\<close>

definition clean :: "string \<Rightarrow> string \<Rightarrow> string \<Rightarrow> bool" where
  "clean pfx cls s = (\<forall>c\<in>set cls. \<not> sublist (pfx @ [c]) s)"

text \<open>
  The text a pattern of the table is applied to: the text \<^verbatim>\<open>extractSecrets\<close>
  is given, after the loop has gone through the patterns that stand before the
  one named \<open>name\<close>.
\<close>

definition textAtTurn :: "string \<Rightarrow> string \<Rightarrow> string" where
  "textAtTurn name str =
     fst (extractSecretsLoop (takeWhile (\<lambda>(pfx, cls, n). n \<noteq> name) SECRET_PATTERNS) str [])"

text \<open>
  What the proofs need of an entry of the pattern table: the name has no
  \<^verbatim>\<open>$\<close>, so the placeholder stands for itself as a replacement; the literal and
  the class have neither \<^verbatim>\<open>$\<close> nor \<^verbatim>\<open>}\<close>; the literal has a lower-case
  letter that no placeholder has.
\<close>

definition patOK :: "string \<times> string \<times> string \<Rightarrow> bool" where
  "patOK p = (case p of (pfx, cls, name) \<Rightarrow>
     CHR ''$'' \<notin> set name \<and> CHR ''$'' \<notin> set pfx \<union> set cls \<and>
     CHR ''}'' \<notin> set pfx \<union> set cls \<and>
     (\<exists>x\<in>set pfx. x \<in> set ''srwx'') \<and> set (CHR ''{'' # name) \<inter> set ''srwx'' = {})"

text \<open>
  \<open>t\<close> arises from \<open>s\<close> when the occurrences of \<open>pat\<close>, found from the left and
  not overlapping, are each replaced by some text. Both \<^verbatim>\<open>split(pat).join(x)\<close>
  and the global replacement of a literal are of this kind.
\<close>

inductive replaced :: "string \<Rightarrow> string \<Rightarrow> string \<Rightarrow> bool" for pat where
  nil: "replaced pat [] []"
| skip: "\<not> prefix pat (c # cs) \<Longrightarrow> replaced pat cs t \<Longrightarrow> replaced pat (c # cs) (c # t)"
| hit: "prefix pat (c # cs) \<Longrightarrow> replaced pat (drop (length pat) (c # cs)) t \<Longrightarrow>
        replaced pat (c # cs) (ins @ t)"

text \<open>
  The text the Restorer hands to \<^verbatim>\<open>JSON.parse\<close>: the snapshot with paths and
  secrets substituted, when the run gets that far.
\<close>

definition textToParse :: "string \<Rightarrow> files \<Rightarrow> string option" where
  "textToParse HOME fs =
     (case loadMachineConfig False HOME fs of
        (fs1, out1, Inl e) \<Rightarrow> None
      | (fs1, out1, Inr codeDir) \<Rightarrow>
          (case snapshotFile fs1 of
             None \<Rightarrow> None
           | Some backupStr \<Rightarrow>
               (case substituteStore fs1 (substitutePaths codeDir HOME backupStr) of
                  Inl e \<Rightarrow> None
                | Inr (str, out3) \<Rightarrow> Some str)))"

text \<open>The Secrets Store file exists, parses, and has the key.\<close>

definition hasSecret :: "files \<Rightarrow> string \<Rightarrow> bool" where
  "hasSecret fs name =
     (case secretsFile fs of
        None \<Rightarrow> False
      | Some txt \<Rightarrow>
          (case JSON_parse txt of
             None \<Rightarrow> False
           | Some store \<Rightarrow> name \<in> set (map fst (ownEntries store))))"

text \<open>
  The files a failed run has left as they were: all but the Machine Config, which
  is as it was when there was one.
\<close>

definition keptFiles :: "files \<Rightarrow> files \<Rightarrow> bool" where
  "keptFiles fs fs' =
     (liveConfig fs' = liveConfig fs \<and> snapshotFile fs' = snapshotFile fs \<and>
      secretsFile fs' = secretsFile fs \<and> existingPaths fs' = existingPaths fs \<and>
      (machineConfigFile fs \<noteq> None \<longrightarrow> machineConfigFile fs' = machineConfigFile fs))"

subsection \<open>Example inputs\<close>

text \<open>
  A machine whose home directory is \<^verbatim>\<open>/home/alice\<close>, with a Machine Config that
  names \<^verbatim>\<open>/home/alice/code\<close>, a live configuration, and no snapshot and no
  Secrets Store yet.
\<close>

definition aliceFiles :: "json \<Rightarrow> files" where
  "aliceFiles config =
     \<lparr>liveConfig = Some (JSON_stringify config),
      snapshotFile = None,
      secretsFile = None,
      machineConfigFile = Some (JSON_stringify (JObj [(''codeDir'', JStr ''/home/alice/code'')])),
      existingPaths = [''/home/alice/code'']\<rparr>"

definition serversOf :: "string list \<Rightarrow> json" where
  "serversOf args =
     JObj [(''pay'', JObj [(''command'', JStr ''npx''), (''args'', JArr (map JStr args))])]"

definition configOf :: "string list \<Rightarrow> json" where
  "configOf args = JObj [(''theme'', JStr ''dark''), (''mcpServers'', serversOf args)]"

text \<open>
  The same machine at restoration: a snapshot with one global server and two
  projects, of which \<^verbatim>\<open>/home/alice/code/proj\<close> exists and
  \<^verbatim>\<open>/home/alice/code/ghost\<close> does not; a live configuration with an unrelated
  field and an entry for the project that exists; a Secrets Store that has no
  value for the placeholder of the snapshot.
\<close>

definition aliceSnapshot :: json where
  "aliceSnapshot =
     JObj [(''global'', serversOf [''--key=${STRIPE_TEST_API_KEY}'']),
           (''projects'',
            JObj [(''${CODE_DIR}/proj'', serversOf [''a'']),
                  (''${CODE_DIR}/ghost'', serversOf [''b''])])]"

definition aliceLive :: json where
  "aliceLive =
     JObj [(''theme'', JStr ''dark''),
           (''projects'',
            JObj [(''/home/alice/code/proj'',
                   JObj [(''trusted'', JBool True),
                         (''mcpServers'', JObj [(''old'', JObj [(''command'', JStr ''o'')])])])])]"

definition aliceRestore :: "string option \<Rightarrow> files" where
  "aliceRestore store =
     \<lparr>liveConfig = Some (JSON_stringify aliceLive),
      snapshotFile = Some (JSON_stringify aliceSnapshot),
      secretsFile = store,
      machineConfigFile = Some (JSON_stringify (JObj [(''codeDir'', JStr ''/home/alice/code'')])),
      existingPaths = [''/home/alice/code'', ''/home/alice/code/proj'']\<rparr>"

definition aliceStore :: "string option" where
  "aliceStore = Some (JSON_stringify (JObj [(''OTHER'', JStr ''x'')]))"

text \<open>The snapshot as the Restorer parses it on this machine.\<close>

definition aliceBackup :: json where
  "aliceBackup =
     JObj [(''global'', serversOf [''--key=${STRIPE_TEST_API_KEY}'']),
           (''projects'',
            JObj [(''/home/alice/code/proj'', serversOf [''a'']),
                  (''/home/alice/code/ghost'', serversOf [''b''])])]"

text \<open>
  A live configuration that is no JSON, on a machine with a code directory and no
  Machine Config yet; a snapshot that is no JSON; and a snapshot that is no JSON
  until its placeholder is substituted.
\<close>

definition brokenLive :: files where
  "brokenLive =
     \<lparr>liveConfig = Some ''{'', snapshotFile = None, secretsFile = None,
      machineConfigFile = None, existingPaths = [''/home/alice/code'']\<rparr>"

definition oddSnapshot :: files where
  "oddSnapshot =
     \<lparr>liveConfig = None, snapshotFile = Some ''${EMPTY}'',
      secretsFile = Some (JSON_stringify (JObj [(''EMPTY'', JStr ''{}'')])),
      machineConfigFile = Some (JSON_stringify (JObj [(''codeDir'', JStr ''/home/alice/code'')])),
      existingPaths = [''/home/alice/code'']\<rparr>"

definition brokenSnapshot :: files where
  "brokenSnapshot =
     \<lparr>liveConfig = None, snapshotFile = Some ''['', secretsFile = None,
      machineConfigFile = Some (JSON_stringify (JObj [(''codeDir'', JStr ''/home/alice/code'')])),
      existingPaths = [''/home/alice/code'']\<rparr>"

section \<open>Properties of split and join\<close>

lemma splitAcc_no_occurrence:
  "\<not> sublist sep s \<Longrightarrow> splitAcc sep cur s = [cur @ s]"
proof (induction s arbitrary: cur)
  case Nil
  then show ?case by simp
next
  case (Cons c cs)
  have np: "\<not> prefix sep (c # cs)"
    using Cons.prems prefix_imp_sublist by blast
  have ns: "\<not> sublist sep cs"
    using Cons.prems by (auto simp: sublist_Cons_right)
  show ?case using np Cons.IH [OF ns] by simp
qed

lemma splitAcc_at_head:
  "sep \<noteq> [] \<Longrightarrow> splitAcc sep cur (sep @ s) = cur # splitAcc sep [] s"
  by (cases sep) auto

lemma splitJS_no_occurrence:
  "sep \<noteq> [] \<Longrightarrow> \<not> sublist sep s \<Longrightarrow> joinJS rep (splitJS sep s) = s"
  by (simp add: splitJS_def splitAcc_no_occurrence)

section \<open>Properties of the global search and replacement\<close>

lemma scan_cases:
  obtains (skip) "noMatchAt m s" | (hit) n where "m s = Some (Suc n)"
proof (cases "m s")
  case None
  then show ?thesis using skip by (simp add: noMatchAt_def)
next
  case (Some k)
  then show ?thesis using skip hit by (cases k) (simp_all add: noMatchAt_def)
qed

lemma gmatch_skip [simp]: "noMatchAt m (c # cs) \<Longrightarrow> gmatch m (c # cs) = gmatch m cs"
  by (auto simp: noMatchAt_def)

lemma gmatch_hit [simp]:
  "m (c # cs) = Some (Suc n) \<Longrightarrow> gmatch m (c # cs) = (c # take n cs) # gmatch m (drop n cs)"
  by simp

lemma gaps_skip [simp]: "noMatchAt m (c # cs) \<Longrightarrow> gaps m cur (c # cs) = gaps m (cur @ [c]) cs"
  by (auto simp: noMatchAt_def)

lemma gaps_hit [simp]:
  "m (c # cs) = Some (Suc n) \<Longrightarrow> gaps m cur (c # cs) = cur # gaps m [] (drop n cs)"
  by simp

lemma gsub_skip [simp]:
  "noMatchAt m (c # cs) \<Longrightarrow> gsub m repl bef (c # cs) = c # gsub m repl (bef @ [c]) cs"
  by (auto simp: noMatchAt_def)

lemma gsub_hit [simp]:
  "m (c # cs) = Some (Suc n) \<Longrightarrow>
   gsub m repl bef (c # cs) =
     expandRepl repl bef (c # take n cs) (drop n cs) @ gsub m repl (bef @ c # take n cs) (drop n cs)"
  by simp

declare gmatch.simps(2) [simp del] gaps.simps(2) [simp del] gsub.simps(2) [simp del]

lemma scan_induct [case_names Nil skip hit]:
  assumes "P []"
    and "\<And>c cs. noMatchAt m (c # cs) \<Longrightarrow> P cs \<Longrightarrow> P (c # cs)"
    and "\<And>c cs n. m (c # cs) = Some (Suc n) \<Longrightarrow> P (drop n cs) \<Longrightarrow> P (c # cs)"
  shows "P s"
proof (induction s rule: length_induct)
  case (1 s)
  show ?case
  proof (cases s)
    case Nil
    with assms(1) show ?thesis by simp
  next
    case (Cons c cs)
    show ?thesis
    proof (cases m "c # cs" rule: scan_cases)
      case skip
      with assms(2) [of c cs] "1.IH" Cons show ?thesis by simp
    next
      case (hit n)
      with assms(3) [of c cs n] "1.IH" Cons show ?thesis by simp
    qed
  qed
qed

lemma gaps_nonempty: "gaps m cur s \<noteq> []"
  by (induction s arbitrary: cur rule: scan_induct [of _ m]) auto

lemma gaps_length: "length (gaps m cur s) = Suc (length (gmatch m s))"
  by (induction s arbitrary: cur rule: scan_induct [of _ m]) auto

lemma weave_Cons: "gs \<noteq> [] \<Longrightarrow> weave (g # gs) (f # fills) = g @ f @ weave gs fills"
  by (cases gs) auto

lemma weave_gaps_matches: "weave (gaps m cur s) (gmatch m s) = cur @ s"
proof (induction s arbitrary: cur rule: scan_induct [of _ m])
  case Nil
  then show ?case by simp
next
  case (skip c cs)
  then show ?case by simp
next
  case (hit c cs n)
  then show ?case by (simp add: weave_Cons gaps_nonempty)
qed

lemma gsub_weave:
  assumes "\<And>bef mat aft. expandRepl repl bef mat aft = lit"
  shows "cur @ gsub m repl bef s = weave (gaps m cur s) (replicate (length (gmatch m s)) lit)"
proof (induction s arbitrary: cur bef rule: scan_induct [of _ m])
  case Nil
  then show ?case by simp
next
  case (skip c cs)
  from skip(2) [of "cur @ [c]" "bef @ [c]"] skip(1) show ?case by simp
next
  case (hit c cs n)
  from hit(2) [of "[]" "bef @ c # take n cs"] hit(1) show ?case
    by (simp add: weave_Cons gaps_nonempty assms)
qed

lemma expandRepl_no_dollar:
  "CHR ''$'' \<notin> set r \<Longrightarrow> expandRepl r bef mat aft = r"
  by (induction r bef mat aft rule: expandRepl.induct) auto

lemma expandRepl_placeholder:
  "CHR ''$'' \<notin> set name \<Longrightarrow> expandRepl (placeholder name) bef mat aft = placeholder name"
  using expandRepl_no_dollar [of "CHR ''{'' # name @ ''}''" bef mat aft]
  by (simp add: placeholder_def)

lemma gaps_sublist: "g \<in> set (gaps m cur s) \<Longrightarrow> sublist g (cur @ s)"
proof (induction s arbitrary: cur rule: scan_induct [of _ m])
  case Nil
  then show ?case by simp
next
  case (skip c cs)
  from skip(2) [of "cur @ [c]"] skip(1,3) show ?case by simp
next
  case (hit c cs n)
  from hit(3) hit(1) consider "g = cur" | "g \<in> set (gaps m [] (drop n cs))" by auto
  then show ?case
  proof cases
    case 1
    then show ?thesis by (simp add: prefix_imp_sublist)
  next
    case 2
    from hit(2) [OF 2] have "sublist g (drop n cs)" by simp
    then obtain ps ss where "drop n cs = ps @ g @ ss" by (auto simp: sublist_def)
    then have "cur @ c # cs = (cur @ c # take n cs @ ps) @ g @ ss"
      by (metis append.assoc append_Cons append_take_drop_id)
    then show ?thesis unfolding sublist_def by blast
  qed
qed

lemma prefix_before_char:
  assumes "a \<notin> set w" and "prefix w (xs @ a # ys)"
  shows "prefix w xs"
proof -
  from assms(2) consider "prefix w xs" | us where "w = xs @ us" "prefix us (a # ys)"
    by (auto simp: prefix_append)
  then show ?thesis
  proof cases
    case 1
    then show ?thesis .
  next
    case 2
    from 2(2) have "us = [] \<or> a \<in> set us" by (cases us) auto
    with assms(1) 2(1) show ?thesis by auto
  qed
qed

lemma sublist_split_char:
  assumes "a \<notin> set w"
  shows "sublist w (xs @ a # ys) \<Longrightarrow> sublist w xs \<or> sublist w ys"
proof (induction xs)
  case Nil
  then have "prefix w (a # ys) \<or> sublist w ys" by (simp add: sublist_Cons_right)
  moreover have "prefix w (a # ys) \<Longrightarrow> w = []"
    using prefix_before_char [OF assms, of "[]" ys] by simp
  ultimately show ?case by auto
next
  case (Cons x xs)
  from Cons.prems have "prefix w ((x # xs) @ a # ys) \<or> sublist w (xs @ a # ys)"
    by (simp add: sublist_Cons_right)
  then show ?case
  proof
    assume "prefix w ((x # xs) @ a # ys)"
    then have "prefix w (x # xs)" by (rule prefix_before_char [OF assms])
    then show ?thesis by (simp add: prefix_imp_sublist)
  next
    assume "sublist w (xs @ a # ys)"
    with Cons.IH have "sublist w xs \<or> sublist w ys" by simp
    then show ?thesis by (auto simp: sublist_Cons_right)
  qed
qed

lemma weave_sublist:
  assumes "a \<notin> set w" and "z \<notin> set w" and "\<not> sublist w mid" and "w \<noteq> []"
  shows "length gs = Suc (length fills) \<Longrightarrow> \<forall>f\<in>set fills. f = a # mid @ [z] \<Longrightarrow>
         sublist w (weave gs fills) \<Longrightarrow> \<exists>g\<in>set gs. sublist w g"
proof (induction gs fills rule: weave.induct)
  case (1 fills)
  then show ?case by simp
next
  case (2 g fills)
  then show ?case by simp
next
  case (3 g g' gs)
  then show ?case by simp
next
  case (4 g g' gs f fills)
  from "4.prems"(2) have f: "f = a # mid @ [z]" by simp
  from "4.prems"(3) have "sublist w (g @ a # (mid @ z # weave (g' # gs) fills))"
    by (simp add: f)
  then have "sublist w g \<or> sublist w (mid @ z # weave (g' # gs) fills)"
    by (rule sublist_split_char [OF assms(1)])
  then show ?case
  proof
    assume "sublist w g"
    then show ?thesis by simp
  next
    assume "sublist w (mid @ z # weave (g' # gs) fills)"
    then have "sublist w mid \<or> sublist w (weave (g' # gs) fills)"
      by (rule sublist_split_char [OF assms(2)])
    with assms(3) have "sublist w (weave (g' # gs) fills)" by simp
    moreover from "4.prems"(1) have "length (g' # gs) = Suc (length fills)" by simp
    moreover from "4.prems"(2) have "\<forall>f\<in>set fills. f = a # mid @ [z]" by simp
    ultimately have "\<exists>g\<in>set (g' # gs). sublist w g" by (rule "4.IH" [rotated 2])
    then show ?thesis by simp
  qed
qed

lemma sublist_suffix_prefix:
  "sublist w s \<Longrightarrow> \<exists>v. suffix v s \<and> prefix w v"
  by (simp add: sublist_altdef')

lemma gaps_no_trigger:
  assumes trig: "\<And>s. prefix w s \<Longrightarrow> \<not> noMatchAt m s"
    and ne: "w \<noteq> []"
  shows "(\<And>v. suffix v cur \<Longrightarrow> v \<noteq> [] \<Longrightarrow> \<not> prefix w (v @ s)) \<Longrightarrow>
         g \<in> set (gaps m cur s) \<Longrightarrow> \<not> sublist w g"
proof (induction s arbitrary: cur rule: scan_induct [of _ m])
  case Nil
  show ?case
  proof
    assume "sublist w g"
    moreover from Nil(2) have "g = cur" by simp
    ultimately obtain v where v: "suffix v cur" "prefix w v"
      using sublist_suffix_prefix by blast
    from v(2) ne have "v \<noteq> []" by auto
    from Nil(1) [OF v(1) this] v(2) show False by simp
  qed
next
  case (skip c cs)
  have inv: "\<not> prefix w (v @ cs)" if "suffix v (cur @ [c])" "v \<noteq> []" for v
  proof -
    from that obtain v' where v': "v = v' @ [c]" "suffix v' cur"
      by (cases v rule: rev_cases) (auto simp: suffix_def)
    show ?thesis
    proof (cases "v' = []")
      case True
      with v' have "v @ cs = c # cs" by simp
      with trig [of "c # cs"] skip(1) show ?thesis by auto
    next
      case False
      from skip(3) [OF v'(2) False] v'(1) show ?thesis by simp
    qed
  qed
  from skip(4) skip(1) have "g \<in> set (gaps m (cur @ [c]) cs)" by simp
  from skip(2) [OF inv this] show ?case by simp
next
  case (hit c cs n)
  from hit(4) hit(1) consider "g = cur" | "g \<in> set (gaps m [] (drop n cs))" by auto
  then show ?case
  proof cases
    case 1
    show ?thesis
    proof
      assume "sublist w g"
      with 1 obtain v where v: "suffix v cur" "prefix w v"
        using sublist_suffix_prefix by blast
      from v(2) ne have vne: "v \<noteq> []" by auto
      from v(2) have "prefix w (v @ c # cs)" by (rule prefix_prefix)
      with hit(3) [OF v(1) vne] show False by simp
    qed
  next
    case 2
    have "\<not> prefix w (v @ drop n cs)" if "suffix v []" "v \<noteq> []" for v
      using that by simp
    from hit(2) [OF this 2] show ?thesis by simp
  qed
qed

lemma reClass_trigger:
  assumes "c \<in> set cls" and "prefix (pfx @ [c]) s"
  shows "\<not> noMatchAt (reClass pfx cls) s"
proof -
  from assms(2) obtain r where s: "s = pfx @ c # r"
    by (auto simp: prefix_def)
  have "takeWhile (\<lambda>c. c \<in> set cls) (c # r) \<noteq> []"
    using assms(1) by simp
  then obtain k where "length (takeWhile (\<lambda>c. c \<in> set cls) (c # r)) = Suc k"
    by (cases "takeWhile (\<lambda>c. c \<in> set cls) (c # r)") auto
  then show ?thesis
    unfolding noMatchAt_def reClass_def s by simp
qed

lemma reClass_match:
  assumes "\<not> noMatchAt (reClass pfx cls) s"
  shows "\<exists>c\<in>set cls. prefix (pfx @ [c]) s"
proof -
  from assms have p: "prefix pfx s"
    and t: "takeWhile (\<lambda>c. c \<in> set cls) (drop (length pfx) s) \<noteq> []"
    by (auto simp: noMatchAt_def reClass_def split: if_splits nat.splits)
  from p obtain r where s: "s = pfx @ r" by (auto simp: prefix_def)
  with t obtain c r' where r: "r = c # r'" and c: "c \<in> set cls"
    by (cases r) (auto split: if_splits)
  from s r have "prefix (pfx @ [c]) s" by simp
  with c show ?thesis by blast
qed

lemma gmatch_Nil_noMatchAt:
  "gmatch m s = [] \<Longrightarrow> suffix v s \<Longrightarrow> v \<noteq> [] \<Longrightarrow> noMatchAt m v"
proof (induction s rule: scan_induct [of _ m])
  case Nil
  then show ?case by simp
next
  case (skip c cs)
  from skip(4) have "v = c # cs \<or> suffix v cs" by (simp add: suffix_Cons)
  then show ?case
  proof
    assume "v = c # cs" with skip(1) show ?thesis by simp
  next
    assume "suffix v cs"
    with skip show ?thesis by simp
  qed
next
  case (hit c cs n)
  then show ?case by simp
qed

lemma gmatch_Nil_clean:
  assumes "gmatch (reClass pfx cls) s = []"
  shows "clean pfx cls s"
  unfolding clean_def
proof (intro ballI notI)
  fix c assume c: "c \<in> set cls" and "sublist (pfx @ [c]) s"
  then obtain v where v: "suffix v s" "prefix (pfx @ [c]) v"
    using sublist_suffix_prefix by blast
  from v(2) have "v \<noteq> []" by auto
  from gmatch_Nil_noMatchAt [OF assms v(1) this] reClass_trigger [OF c v(2)]
  show False by simp
qed

lemma replaceJS_weave:
  assumes "CHR ''$'' \<notin> set name"
  shows "replaceJS m (placeholder name) s =
         weave (gaps m [] s) (replicate (length (gmatch m s)) (placeholder name))"
  using gsub_weave [of "placeholder name" "placeholder name" "[]" m "[]" s]
    expandRepl_placeholder [OF assms]
  by (simp add: replaceJS_def)

lemma placeholder_shape: "placeholder name = CHR ''$'' # (CHR ''{'' # name) @ [CHR ''}'']"
  by (simp add: placeholder_def)

lemma replaceJS_sublist_gap:
  assumes "CHR ''$'' \<notin> set name"
    and "CHR ''$'' \<notin> set w" and "CHR ''}'' \<notin> set w"
    and "\<not> sublist w (CHR ''{'' # name)" and "w \<noteq> []"
    and "sublist w (replaceJS m (placeholder name) s)"
  shows "\<exists>g\<in>set (gaps m [] s). sublist w g"
proof (rule weave_sublist [OF assms(2,3,4,5)])
  show "length (gaps m [] s) = Suc (length (replicate (length (gmatch m s)) (placeholder name)))"
    by (simp add: gaps_length)
  show "\<forall>f\<in>set (replicate (length (gmatch m s)) (placeholder name)).
          f = CHR ''$'' # (CHR ''{'' # name) @ [CHR ''}'']"
    by (simp add: placeholder_shape)
  show "sublist w (weave (gaps m [] s) (replicate (length (gmatch m s)) (placeholder name)))"
    using assms(6) by (simp add: replaceJS_weave [OF assms(1)])
qed

lemma replaceJS_keeps_clean:
  assumes "CHR ''$'' \<notin> set name"
    and "CHR ''$'' \<notin> set pfx \<union> set cls" and "CHR ''}'' \<notin> set pfx \<union> set cls"
    and "\<not> set pfx \<subseteq> set (CHR ''{'' # name)"
    and "clean pfx cls s"
  shows "clean pfx cls (replaceJS m (placeholder name) s)"
  unfolding clean_def
proof (intro ballI notI)
  fix c assume c: "c \<in> set cls"
    and sub: "sublist (pfx @ [c]) (replaceJS m (placeholder name) s)"
  have "\<not> sublist (pfx @ [c]) (CHR ''{'' # name)"
  proof
    assume "sublist (pfx @ [c]) (CHR ''{'' # name)"
    then have "set (pfx @ [c]) \<subseteq> set (CHR ''{'' # name)" by (rule set_mono_sublist)
    with assms(4) show False by auto
  qed
  moreover have "CHR ''$'' \<notin> set (pfx @ [c])" "CHR ''}'' \<notin> set (pfx @ [c])"
    using assms(2,3) c by auto
  ultimately obtain g where g: "g \<in> set (gaps m [] s)" "sublist (pfx @ [c]) g"
    using replaceJS_sublist_gap [OF assms(1) _ _ _ _ sub] by blast
  from gaps_sublist [OF g(1)] have "sublist g s" by simp
  with g(2) have "sublist (pfx @ [c]) s" by (rule sublist_order.order_trans)
  with assms(5) c show False by (simp add: clean_def)
qed

lemma replaceJS_makes_clean:
  assumes "CHR ''$'' \<notin> set name"
    and "CHR ''$'' \<notin> set pfx \<union> set cls" and "CHR ''}'' \<notin> set pfx \<union> set cls"
    and "\<not> set pfx \<subseteq> set (CHR ''{'' # name)"
  shows "clean pfx cls (replaceJS (reClass pfx cls) (placeholder name) s)"
  unfolding clean_def
proof (intro ballI notI)
  fix c assume c: "c \<in> set cls"
    and sub: "sublist (pfx @ [c]) (replaceJS (reClass pfx cls) (placeholder name) s)"
  have "\<not> sublist (pfx @ [c]) (CHR ''{'' # name)"
  proof
    assume "sublist (pfx @ [c]) (CHR ''{'' # name)"
    then have "set (pfx @ [c]) \<subseteq> set (CHR ''{'' # name)" by (rule set_mono_sublist)
    with assms(4) show False by auto
  qed
  moreover have "CHR ''$'' \<notin> set (pfx @ [c])" "CHR ''}'' \<notin> set (pfx @ [c])"
    using assms(2,3) c by auto
  ultimately obtain g where g: "g \<in> set (gaps (reClass pfx cls) [] s)" "sublist (pfx @ [c]) g"
    using replaceJS_sublist_gap [OF assms(1) _ _ _ _ sub] by blast
  have "\<not> sublist (pfx @ [c]) g"
  proof (rule gaps_no_trigger [OF _ _ _ g(1)])
    show "\<And>s. prefix (pfx @ [c]) s \<Longrightarrow> \<not> noMatchAt (reClass pfx cls) s"
      by (rule reClass_trigger [OF c])
    show "pfx @ [c] \<noteq> []" by simp
    show "\<And>v. suffix v [] \<Longrightarrow> v \<noteq> [] \<Longrightarrow> \<not> prefix (pfx @ [c]) (v @ s)" by simp
  qed
  with g(2) show False by simp
qed

section \<open>The loop over the secret patterns\<close>

lemma SECRET_PATTERNS_ok: "\<forall>p\<in>set SECRET_PATTERNS. patOK p"
  by (simp add: SECRET_PATTERNS_def patOK_def alnum_def)

lemma SECRET_PATTERNS_names: "distinct (map (\<lambda>(pfx, cls, name). name) SECRET_PATTERNS)"
  by (simp add: SECRET_PATTERNS_def)

lemma patOK_foreign:
  assumes "patOK (pfx, cls, name)" and "patOK (pfx', cls', name')"
  shows "\<not> set pfx \<subseteq> set (CHR ''{'' # name')"
  using assms unfolding patOK_def by (simp only: prod.case) blast

lemma extractSecretsLoop_clean:
  assumes "\<forall>p\<in>D \<union> set ps. patOK p"
    and "\<forall>(pfx, cls, name)\<in>D. clean pfx cls str"
  shows "\<forall>(pfx, cls, name)\<in>D \<union> set ps. clean pfx cls (fst (extractSecretsLoop ps str secrets))"
  using assms
proof (induction ps arbitrary: D str secrets)
  case Nil
  then show ?case by simp
next
  case (Cons p ps)
  obtain pfx cls name where p: "p = (pfx, cls, name)" by (cases p) auto
  have okp: "patOK (pfx, cls, name)" using Cons.prems(1) p by simp
  have ok': "\<forall>q\<in>insert p D \<union> set ps. patOK q" using Cons.prems(1) by simp
  show ?case
  proof (cases "gmatch (reClass pfx cls) str")
    case Nil
    have "\<forall>(pfx, cls, name)\<in>insert p D. clean pfx cls str"
      using Cons.prems(2) gmatch_Nil_clean [OF Nil] p by simp
    from Cons.IH [OF ok' this, of secrets] Nil p show ?thesis by simp
  next
    case (Cons first others)
    let ?str = "replaceJS (reClass pfx cls) (placeholder name) str"
    have n: "CHR ''$'' \<notin> set name" using okp by (simp add: patOK_def)
    have "clean pfx' cls' ?str" if q: "(pfx', cls', name') \<in> insert p D" for pfx' cls' name'
    proof (cases "(pfx', cls', name') = p")
      case True
      then have e: "pfx' = pfx" "cls' = cls" using p by simp_all
      show ?thesis unfolding e
        using okp patOK_foreign [OF okp okp]
        by (intro replaceJS_makes_clean) (simp_all add: patOK_def)
    next
      case False
      with q have d: "(pfx', cls', name') \<in> D" by simp
      then have okq: "patOK (pfx', cls', name')" using Cons.prems(1) by blast
      from d Cons.prems(2) have c: "clean pfx' cls' str" by blast
      show ?thesis
        using okq patOK_foreign [OF okq okp] n c
        by (intro replaceJS_keeps_clean) (simp_all add: patOK_def)
    qed
    then have "\<forall>(pfx, cls, name)\<in>insert p D. clean pfx cls ?str" by blast
    from Cons.IH [OF ok' this, of "objSet secrets name first"] Cons p show ?thesis by simp
  qed
qed

lemma extractSecrets_clean:
  assumes "(pfx, cls, name) \<in> set SECRET_PATTERNS"
  shows "clean pfx cls (fst (extractSecrets str))"
  using extractSecretsLoop_clean [of "{}" SECRET_PATTERNS str "[]"] SECRET_PATTERNS_ok assms
  unfolding extractSecrets_def by blast

lemma clean_no_occurrence:
  assumes "clean pfx cls s" and "matchesPattern pfx cls w"
  shows "\<not> sublist w s"
proof
  assume sub: "sublist w s"
  from assms(2) obtain r where w: "w = pfx @ r" and r: "r \<noteq> []" "list_all (\<lambda>c. c \<in> set cls) r"
    by (auto simp: matchesPattern_def prefix_def)
  then obtain c r' where c: "r = c # r'" "c \<in> set cls" by (cases r) auto
  have "prefix (pfx @ [c]) w" using w c by simp
  then have "sublist (pfx @ [c]) w" by (rule prefix_imp_sublist)
  from this sub have "sublist (pfx @ [c]) s" by (rule sublist_order.order_trans)
  with assms(1) c(2) show False by (simp add: clean_def)
qed

lemma objSet_Nil [simp]: "objSet [] k v = [(k, v)]"
  by (simp add: objSet_def)

lemma map_of_updateKey:
  "k \<in> fst ` set kvs \<Longrightarrow> map_of (updateKey kvs k v) = (map_of kvs)(k \<mapsto> v)"
proof (induction kvs)
  case Nil
  then show ?case by simp
next
  case (Cons kv kvs)
  obtain k' v' where kv: "kv = (k', v')" by (cases kv)
  show ?case
  proof (cases "k' = k")
    case True
    then show ?thesis by (simp add: kv fun_eq_iff)
  next
    case False
    with Cons.prems kv have "k \<in> fst ` set kvs" by auto
    from Cons.IH [OF this] False show ?thesis by (simp add: kv fun_eq_iff)
  qed
qed

lemma map_of_insertKey:
  "k \<notin> fst ` set kvs \<Longrightarrow> map_of (insertKey kvs k v) = (map_of kvs)(k \<mapsto> v)"
proof (induction kvs)
  case Nil
  then show ?case by simp
next
  case (Cons kv kvs)
  obtain k' v' where kv: "kv = (k', v')" by (cases kv)
  from Cons.prems kv have ne: "k' \<noteq> k" and nin: "k \<notin> fst ` set kvs" by auto
  from Cons.IH [OF nin] ne show ?case by (auto simp: kv fun_eq_iff)
qed

lemma map_of_objSet: "map_of (objSet kvs k v) = (map_of kvs)(k \<mapsto> v)"
proof (cases "k \<in> fst ` set kvs")
  case True
  then show ?thesis by (simp add: objSet_def map_of_updateKey)
next
  case False
  then show ?thesis by (simp add: objSet_def map_of_insertKey)
qed

lemma map_fst_updateKey: "map fst (updateKey kvs k v) = map fst kvs"
  by (induction kvs) auto

lemma set_insertKey: "set (insertKey kvs k v) = insert (k, v) (set kvs)"
  by (induction kvs) (auto split: if_splits)

lemma distinct_insertKey:
  "k \<notin> fst ` set kvs \<Longrightarrow> distinct (map fst kvs) \<Longrightarrow> distinct (map fst (insertKey kvs k v))"
  by (induction kvs) (auto simp: set_insertKey)

lemma insertKey_plain: "\<not> isIndex k \<Longrightarrow> insertKey kvs k v = kvs @ [(k, v)]"
  by (induction kvs) (auto simp: keyBefore_def)

lemma keys_objSet: "fst ` set (objSet kvs k v) = insert k (fst ` set kvs)"
proof (cases "k \<in> fst ` set kvs")
  case True
  have "set (map fst (updateKey kvs k v)) = set (map fst kvs)"
    by (simp only: map_fst_updateKey)
  then have "fst ` set (updateKey kvs k v) = fst ` set kvs" by simp
  with True show ?thesis by (auto simp: objSet_def)
next
  case False
  then show ?thesis by (simp add: objSet_def set_insertKey)
qed

lemma distinct_objSet: "distinct (map fst kvs) \<Longrightarrow> distinct (map fst (objSet kvs k v))"
  by (simp add: objSet_def map_fst_updateKey distinct_insertKey)

lemma map_of_rev_distinct: "distinct (map fst xs) \<Longrightarrow> map_of (rev xs) = map_of xs"
proof (induction xs)
  case Nil
  then show ?case by simp
next
  case (Cons x xs)
  obtain k v where x: "x = (k, v)" by (cases x) auto
  from Cons.prems x have "k \<notin> dom (map_of xs)"
    by (simp add: dom_map_of_conv_image_fst)
  then have "map_of xs k = None" by blast
  then have "[k \<mapsto> v] ++ map_of xs = (map_of xs)(k \<mapsto> v)"
    by (auto simp: fun_eq_iff map_add_def split: option.splits)
  with Cons x show ?case by simp
qed

lemma map_of_foldl_objSet:
  "map_of (foldl (\<lambda>acc (k, v). objSet acc k v) acc xs) = map_of acc ++ map_of (rev xs)"
proof (induction xs arbitrary: acc)
  case Nil
  then show ?case by simp
next
  case (Cons x xs)
  obtain k v where x: "x = (k, v)" by (cases x) auto
  have "map_of (objSet acc k v) ++ map_of (rev xs) = map_of acc ++ ([k \<mapsto> v] ++ map_of (rev xs))"
    by (simp add: map_of_objSet fun_eq_iff map_add_def split: option.splits)
  with Cons.IH [of "objSet acc k v"] x show ?case by simp
qed

lemma distinct_foldl_objSet:
  "distinct (map fst acc) \<Longrightarrow> distinct (map fst (foldl (\<lambda>acc (k, v). objSet acc k v) acc xs))"
  by (induction xs arbitrary: acc) (auto simp: distinct_objSet split: prod.splits)

lemma distinct_spreadMembers: "distinct (map fst (spreadMembers a b))"
  unfolding spreadMembers_def by (rule distinct_foldl_objSet) simp

lemma map_of_spreadMembers:
  "map_of (spreadMembers a b) = map_of (rev a) ++ map_of (rev b)"
  unfolding spreadMembers_def by (simp add: map_of_foldl_objSet)

lemma map_of_spreadMembers_right:
  assumes "distinct (map fst b)" and "map_of b k = Some v"
  shows "map_of (spreadMembers a b) k = Some v"
  using assms by (simp add: map_of_spreadMembers map_of_rev_distinct map_add_def)

lemma count_distinct_key:
  assumes "distinct (map fst kvs)" and "map_of kvs k = Some v"
  shows "length (filter (\<lambda>kv. fst kv = k) kvs) = 1"
  using assms
proof (induction kvs)
  case Nil
  then show ?case by simp
next
  case (Cons kv kvs)
  show ?case
  proof (cases "fst kv = k")
    case True
    with Cons.prems(1) have "k \<notin> fst ` set kvs" by auto
    then have "filter (\<lambda>kv. fst kv = k) kvs = []"
      by (auto simp: filter_empty_conv)
    with True show ?thesis by simp
  next
    case False
    with Cons show ?thesis by (cases kv) auto
  qed
qed

lemma extractSecretsLoop_append:
  "extractSecretsLoop (xs @ ys) str secrets =
     (case extractSecretsLoop xs str secrets of (str', secrets') \<Rightarrow> extractSecretsLoop ys str' secrets')"
  by (induction xs str secrets rule: extractSecretsLoop.induct) (auto split: list.splits)

lemma extractSecretsLoop_distinct:
  "distinct (map fst secrets) \<Longrightarrow> distinct (map fst (snd (extractSecretsLoop ps str secrets)))"
  by (induction ps str secrets rule: extractSecretsLoop.induct)
     (auto split: list.splits simp: distinct_objSet)

lemma extractSecretsLoop_other:
  "name \<notin> set (map (\<lambda>(pfx, cls, n). n) ps) \<Longrightarrow>
   map_of (snd (extractSecretsLoop ps str secrets)) name = map_of secrets name"
  by (induction ps str secrets rule: extractSecretsLoop.induct)
     (auto split: list.splits simp: map_of_objSet)

lemma table_split:
  assumes "(pfx, cls, name) \<in> set ps" and "distinct (map (\<lambda>(pfx, cls, n). n) ps)"
  shows "\<exists>after. ps = takeWhile (\<lambda>(pfx, cls, n). n \<noteq> name) ps @ (pfx, cls, name) # after \<and>
           name \<notin> set (map (\<lambda>(pfx, cls, n). n) after)"
  using assms
proof (induction ps)
  case Nil
  then show ?case by simp
next
  case (Cons p ps)
  obtain pfx' cls' n' where p: "p = (pfx', cls', n')" by (cases p) auto
  show ?case
  proof (cases "n' = name")
    case True
    with Cons.prems p have "p = (pfx, cls, name)" by (auto simp: image_iff)
    with Cons.prems(2) True p show ?thesis by auto
  next
    case False
    with Cons p show ?thesis by auto
  qed
qed

lemma extractSecrets_recorded:
  assumes "(pfx, cls, name) \<in> set SECRET_PATTERNS"
  shows "map_of (snd (extractSecrets str)) name =
           (case gmatch (reClass pfx cls) (textAtTurn name str) of
              [] \<Rightarrow> None
            | first # others \<Rightarrow> Some first)"
proof -
  let ?before = "takeWhile (\<lambda>(pfx, cls, n). n \<noteq> name) SECRET_PATTERNS"
  from table_split [OF assms SECRET_PATTERNS_names] obtain after where
    split: "SECRET_PATTERNS = ?before @ (pfx, cls, name) # after"
    and after: "name \<notin> set (map (\<lambda>(pfx, cls, n). n) after)" by blast
  obtain t s where b: "extractSecretsLoop ?before str [] = (t, s)" by (cases "extractSecretsLoop ?before str []")
  have t: "textAtTurn name str = t" by (simp add: textAtTurn_def b)
  have "name \<notin> set (map (\<lambda>(pfx, cls, n). n) ?before)"
    by (auto dest: set_takeWhileD)
  from extractSecretsLoop_other [OF this, of str "[]"] b have s: "map_of s name = None" by simp
  have "extractSecrets str = extractSecretsLoop ((pfx, cls, name) # after) t s"
    unfolding extractSecrets_def by (subst split) (simp add: extractSecretsLoop_append b)
  then show ?thesis
    using extractSecretsLoop_other [OF after] s t
    by (auto split: list.splits simp: map_of_objSet)
qed

lemma gmatch_matchesPattern:
  "mt \<in> set (gmatch (reClass pfx cls) s) \<Longrightarrow> matchesPattern pfx cls mt"
proof (induction s rule: scan_induct [of _ "reClass pfx cls"])
  case Nil
  then show ?case by simp
next
  case (skip c cs)
  then show ?case by simp
next
  case (hit c cs n)
  from hit(3) hit(1) consider "mt = c # take n cs" | "mt \<in> set (gmatch (reClass pfx cls) (drop n cs))"
    by auto
  then show ?case
  proof cases
    case 1
    let ?run = "takeWhile (\<lambda>c. c \<in> set cls) (drop (length pfx) (c # cs))"
    from hit(1) have p: "prefix pfx (c # cs)" and n: "Suc n = length pfx + length ?run"
      and ne: "?run \<noteq> []"
      by (auto simp: reClass_def split: if_splits nat.splits)
    from p obtain r where r: "c # cs = pfx @ r" by (auto simp: prefix_def)
    have "c # take n cs = take (Suc n) (c # cs)" by simp
    also have "\<dots> = pfx @ take (length (takeWhile (\<lambda>c. c \<in> set cls) r)) r"
      unfolding n r by simp
    also have "\<dots> = pfx @ takeWhile (\<lambda>c. c \<in> set cls) r"
      using takeWhile_eq_take [of "\<lambda>c. c \<in> set cls" r] by simp
    finally have mt: "mt = pfx @ takeWhile (\<lambda>c. c \<in> set cls) r" using 1 by simp
    have "list_all (\<lambda>c. c \<in> set cls) (takeWhile (\<lambda>c. c \<in> set cls) r)"
      by (auto simp: list_all_iff dest: set_takeWhileD)
    moreover from ne r have "takeWhile (\<lambda>c. c \<in> set cls) r \<noteq> []" by simp
    ultimately show ?thesis unfolding matchesPattern_def mt by simp
  next
    case 2
    with hit(2) show ?thesis by simp
  qed
qed

lemma gaps_clean:
  assumes "g \<in> set (gaps (reClass pfx cls) [] s)"
  shows "clean pfx cls g"
  unfolding clean_def
proof (intro ballI)
  fix c assume c: "c \<in> set cls"
  show "\<not> sublist (pfx @ [c]) g"
  proof (rule gaps_no_trigger [OF _ _ _ assms])
    show "\<And>s. prefix (pfx @ [c]) s \<Longrightarrow> \<not> noMatchAt (reClass pfx cls) s"
      by (rule reClass_trigger [OF c])
    show "pfx @ [c] \<noteq> []" by simp
    show "\<And>v. suffix v [] \<Longrightarrow> v \<noteq> [] \<Longrightarrow> \<not> prefix (pfx @ [c]) (v @ s)" by simp
  qed
qed


section \<open>The snapshot holds no secret that a pattern matches\<close>

lemma mergeSecrets_snapshot:
  "snapshotFile (filesAfter (mergeSecrets secrets fs out)) = snapshotFile fs"
  by (simp add: mergeSecrets_def stop_def split: option.splits)

lemma mergeSecrets_store:
  assumes "secrets \<noteq> []" and "failure (mergeSecrets secrets fs out) = None"
  shows "\<exists>existing. secretsFile (filesAfter (mergeSecrets secrets fs out)) =
           Some (JSON_stringify (spread2 existing (secretsJson secrets)))"
  using assms by (auto simp: mergeSecrets_def stop_def split: option.splits)

lemma extractMcp_unfold:
  assumes "snd (snd (serialize HOME fs0)) = Inr (allMcp, envSecrets, jsonStr)"
  shows "\<exists>fs1 out2. extractMcp HOME fs0 =
           mergeSecrets (spreadMembers envSecrets (snd (extractSecrets jsonStr)))
             (fs1\<lparr>snapshotFile := Some (fst (extractSecrets jsonStr))\<rparr>) out2"
proof -
  obtain fs1 out1 r where s: "serialize HOME fs0 = (fs1, out1, r)"
    by (cases "serialize HOME fs0") auto
  with assms have r: "r = Inr (allMcp, envSecrets, jsonStr)" by simp
  show ?thesis
    unfolding extractMcp_def s r
    by (cases "extractSecrets jsonStr") (simp add: Let_def, blast)
qed

lemma map_of_map_value:
  "map_of (map (\<lambda>(k, v). (k, f v)) xs) k = map_option f (map_of xs k)"
  by (induction xs) auto


text \<open>
  C1, as the claim states it, fails in its second half. The patterns are applied
  one after the other, each to the text the earlier ones left. The text
  \<^verbatim>\<open>whsec_sk_test_B2\<close> has the substring \<^verbatim>\<open>whsec_sk\<close>, a match of the
  webhook-secret pattern, but the test-key pattern comes first and replaces
  \<^verbatim>\<open>sk_test_B2\<close>; what is left, \<^verbatim>\<open>whsec_${STRIPE_TEST_API_KEY}\<close>, is no match
  when the turn of the webhook-secret pattern comes, and the Secrets Store gets no
  entry under \<^verbatim>\<open>STRIPE_WEBHOOK_SECRET\<close>.
\<close>

theorem extractMcp_later_pattern_counterexample:
  "snd (snd (serialize ''/home/alice'' (aliceFiles (configOf [''whsec_sk_test_B2'']))))
     = Inr (JObj [(''global'', serversOf [''whsec_sk_test_B2'']), (''projects'', JObj [])], [],
            JSON_stringify (JObj [(''global'', serversOf [''whsec_sk_test_B2'']), (''projects'', JObj [])])) \<and>
   sublist ''whsec_sk''
     (JSON_stringify (JObj [(''global'', serversOf [''whsec_sk_test_B2'']), (''projects'', JObj [])])) \<and>
   (''whsec_'', alnum, ''STRIPE_WEBHOOK_SECRET'') \<in> set SECRET_PATTERNS \<and>
   matchesPattern ''whsec_'' alnum ''whsec_sk'' \<and>
   failure (extractMcp ''/home/alice'' (aliceFiles (configOf [''whsec_sk_test_B2'']))) = None \<and>
   secretsFile (filesAfter (extractMcp ''/home/alice'' (aliceFiles (configOf [''whsec_sk_test_B2'']))))
     = Some (JSON_stringify (JObj [(''STRIPE_TEST_API_KEY'', JStr ''sk_test_B2'')])) \<and>
   map_of [(''STRIPE_TEST_API_KEY'', JStr ''sk_test_B2'')] ''STRIPE_WEBHOOK_SECRET'' = None"
  by code_simp

text \<open>
  C1, amended. When the Extractor gets as far as the serialized snapshot text,
  the Portable Snapshot it writes has no occurrence of any string that a pattern of
  the table matches. When moreover the pattern still has a match at its turn, in
  the text the earlier patterns of the table left, and the run completes, the
  Secrets Store written has exactly one entry under the pattern's name, and its
  value is the first of those matches.
\<close>

theorem extractMcp_masks_patterns:
  assumes "snd (snd (serialize HOME fs0)) = Inr (allMcp, envSecrets, jsonStr)"
    and "(pfx, cls, name) \<in> set SECRET_PATTERNS"
  shows "(\<exists>snap. snapshotFile (filesAfter (extractMcp HOME fs0)) = Some snap \<and>
            (\<forall>w. matchesPattern pfx cls w \<longrightarrow> \<not> sublist w snap)) \<and>
         (\<forall>first others.
            gmatch (reClass pfx cls) (textAtTurn name jsonStr) = first # others \<longrightarrow>
            failure (extractMcp HOME fs0) = None \<longrightarrow>
            (\<exists>store. secretsFile (filesAfter (extractMcp HOME fs0)) =
                       Some (JSON_stringify (JObj store)) \<and>
                     map_of store name = Some (JStr first) \<and>
                     length (filter (\<lambda>kv. fst kv = name) store) = 1))"
proof -
  let ?pat = "snd (extractSecrets jsonStr)"
  let ?secrets = "spreadMembers envSecrets ?pat"
  from extractMcp_unfold [OF assms(1)] obtain fs1 out2 where
    run: "extractMcp HOME fs0 =
            mergeSecrets ?secrets (fs1\<lparr>snapshotFile := Some (fst (extractSecrets jsonStr))\<rparr>) out2"
    by blast
  have snap: "snapshotFile (filesAfter (extractMcp HOME fs0)) = Some (fst (extractSecrets jsonStr))"
    unfolding run by (simp add: mergeSecrets_snapshot)
  have "\<forall>w. matchesPattern pfx cls w \<longrightarrow> \<not> sublist w (fst (extractSecrets jsonStr))"
    using clean_no_occurrence [OF extractSecrets_clean [OF assms(2)]] by blast
  with snap have a: "\<exists>snap. snapshotFile (filesAfter (extractMcp HOME fs0)) = Some snap \<and>
            (\<forall>w. matchesPattern pfx cls w \<longrightarrow> \<not> sublist w snap)"
    by simp
  have b: "\<exists>store. secretsFile (filesAfter (extractMcp HOME fs0)) =
                       Some (JSON_stringify (JObj store)) \<and>
                     map_of store name = Some (JStr first) \<and>
                     length (filter (\<lambda>kv. fst kv = name) store) = 1"
    if m: "gmatch (reClass pfx cls) (textAtTurn name jsonStr) = first # others"
      and ok: "failure (extractMcp HOME fs0) = None" for first others
  proof -
    have rec: "map_of ?pat name = Some first"
      using extractSecrets_recorded [OF assms(2), of jsonStr] m by simp
    have dp: "distinct (map fst ?pat)"
      unfolding extractSecrets_def by (rule extractSecretsLoop_distinct) simp
    have sec: "map_of ?secrets name = Some first"
      by (rule map_of_spreadMembers_right [OF dp rec])
    then have ne: "?secrets \<noteq> []" by auto
    let ?js = "map (\<lambda>(k, v). (k, JStr v)) ?secrets"
    have djs: "distinct (map fst ?js)"
      using distinct_spreadMembers [of envSecrets ?pat]
      by (simp add: comp_def case_prod_unfold)
    have mjs: "map_of ?js name = Some (JStr first)"
      using sec by (simp add: map_of_map_value)
    from mergeSecrets_store [OF ne] ok run obtain existing where
      st: "secretsFile (filesAfter (extractMcp HOME fs0)) =
             Some (JSON_stringify (spread2 existing (secretsJson ?secrets)))"
      by auto
    let ?store = "spreadMembers (ownEntries existing) ?js"
    have "spread2 existing (secretsJson ?secrets) = JObj ?store"
      by (simp add: spread2_def secretsJson_def)
    moreover have "map_of ?store name = Some (JStr first)"
      by (rule map_of_spreadMembers_right [OF djs mjs])
    moreover from this have "length (filter (\<lambda>kv. fst kv = name) ?store) = 1"
      by (rule count_distinct_key [OF distinct_spreadMembers])
    ultimately show ?thesis using st by auto
  qed
  from a b show ?thesis by blast
qed

theorem extractMcp_masks_patterns_witness:
  "snd (snd (serialize ''/home/alice'' (aliceFiles (configOf [''--key=sk_test_A1'']))))
     = Inr (JObj [(''global'', serversOf [''--key=sk_test_A1'']), (''projects'', JObj [])], [],
            JSON_stringify (JObj [(''global'', serversOf [''--key=sk_test_A1'']), (''projects'', JObj [])])) \<and>
   (''sk_test_'', alnum, ''STRIPE_TEST_API_KEY'') \<in> set SECRET_PATTERNS \<and>
   gmatch (reClass ''sk_test_'' alnum)
     (textAtTurn ''STRIPE_TEST_API_KEY''
        (JSON_stringify (JObj [(''global'', serversOf [''--key=sk_test_A1'']), (''projects'', JObj [])])))
     = [''sk_test_A1''] \<and>
   failure (extractMcp ''/home/alice'' (aliceFiles (configOf [''--key=sk_test_A1'']))) = None \<and>
   matchesPattern ''sk_test_'' alnum ''sk_test_A1'' \<and>
   (\<exists>snap. snapshotFile (filesAfter (extractMcp ''/home/alice''
                (aliceFiles (configOf [''--key=sk_test_A1''])))) = Some snap \<and>
           \<not> sublist ''sk_test_A1'' snap) \<and>
   (\<exists>store. secretsFile (filesAfter (extractMcp ''/home/alice''
                (aliceFiles (configOf [''--key=sk_test_A1''])))) = Some (JSON_stringify (JObj store)) \<and>
            map_of store ''STRIPE_TEST_API_KEY'' = Some (JStr ''sk_test_A1'') \<and>
            length (filter (\<lambda>kv. fst kv = ''STRIPE_TEST_API_KEY'') store) = 1)"
proof -
  let ?fs = "aliceFiles (configOf [''--key=sk_test_A1''])"
  let ?all = "JObj [(''global'', serversOf [''--key=sk_test_A1'']), (''projects'', JObj [])]"
  have h1: "snd (snd (serialize ''/home/alice'' ?fs)) = Inr (?all, [], JSON_stringify ?all)"
    by code_simp
  have h2: "(''sk_test_'', alnum, ''STRIPE_TEST_API_KEY'') \<in> set SECRET_PATTERNS"
    by (simp add: SECRET_PATTERNS_def)
  have h3: "gmatch (reClass ''sk_test_'' alnum)
              (textAtTurn ''STRIPE_TEST_API_KEY'' (JSON_stringify ?all)) = [''sk_test_A1'']"
    by code_simp
  have h4: "failure (extractMcp ''/home/alice'' ?fs) = None"
    by code_simp
  have h5: "matchesPattern ''sk_test_'' alnum ''sk_test_A1''"
    by code_simp
  from extractMcp_masks_patterns [OF h1 h2] h3 h4 h5
  have "(\<exists>snap. snapshotFile (filesAfter (extractMcp ''/home/alice'' ?fs)) = Some snap \<and>
           \<not> sublist ''sk_test_A1'' snap) \<and>
        (\<exists>store. secretsFile (filesAfter (extractMcp ''/home/alice'' ?fs)) =
                    Some (JSON_stringify (JObj store)) \<and>
            map_of store ''STRIPE_TEST_API_KEY'' = Some (JStr ''sk_test_A1'') \<and>
            length (filter (\<lambda>kv. fst kv = ''STRIPE_TEST_API_KEY'') store) = 1)"
    by blast
  with h1 h2 h3 h4 h5 show ?thesis by blast
qed


section \<open>What the Restorer leaves alone\<close>

lemma field_setProp:
  "setProp config k x = Inr config' \<Longrightarrow> k' \<noteq> k \<Longrightarrow> field config' k' = field config k'"
  by (cases config) (auto simp: field_def map_of_objSet)

lemma projectEntry_setProp:
  "setProp config k x = Inr config' \<Longrightarrow> k \<noteq> ''projects'' \<Longrightarrow>
   projectEntry config' path = projectEntry config path"
  by (cases config) (auto simp: projectEntry_def map_of_objSet)

lemma restoreGlobal_frame:
  assumes "restoreGlobal backup config = Inr (config1, out1)"
  shows "(\<forall>k. k \<noteq> ''mcpServers'' \<longrightarrow> field config1 k = field config k) \<and>
         (\<forall>path. projectEntry config1 path = projectEntry config path)"
proof (cases "config1 = config")
  case True
  then show ?thesis by simp
next
  case False
  with assms obtain x where "setProp config ''mcpServers'' x = Inr config1"
    by (auto simp: restoreGlobal_def split: sum.splits option.splits if_splits)
  then show ?thesis
    using field_setProp projectEntry_setProp by auto
qed

lemma loadMachineConfig_files:
  assumes "loadMachineConfig verbose HOME fs = (fs1, out, r)"
  shows "liveConfig fs1 = liveConfig fs \<and> snapshotFile fs1 = snapshotFile fs \<and>
         secretsFile fs1 = secretsFile fs \<and> existingPaths fs1 = existingPaths fs \<and>
         (machineConfigFile fs \<noteq> None \<longrightarrow> fs1 = fs)"
  using assms unfolding loadMachineConfig_def
  by (auto split: option.splits sum.splits json.splits)

lemma loadMachineConfig_printed:
  assumes "loadMachineConfig verbose HOME fs = (fs1, out, r)"
  shows "filter countLine out = []"
  using assms unfolding loadMachineConfig_def
  by (auto split: option.splits sum.splits json.splits if_splits)

lemma substituteStore_printed:
  assumes "substituteStore fs str = Inr (str', out)"
  shows "filter countLine out = []"
  using assms unfolding substituteStore_def
  by (auto split: option.splits sum.splits json.splits)

lemma loadBackup_result:
  assumes "loadBackup HOME fs = (fs1, out, r)"
  shows "liveConfig fs1 = liveConfig fs \<and> snapshotFile fs1 = snapshotFile fs \<and>
         secretsFile fs1 = secretsFile fs \<and> existingPaths fs1 = existingPaths fs \<and>
         (machineConfigFile fs \<noteq> None \<longrightarrow> fs1 = fs) \<and>
         filter countLine out = []"
proof -
  obtain f o1 r1 where m: "loadMachineConfig False HOME fs = (f, o1, r1)"
    by (cases "loadMachineConfig False HOME fs") auto
  note mf = loadMachineConfig_files [OF m] and mp = loadMachineConfig_printed [OF m]
  from assms m have f: "fs1 = f"
    unfolding loadBackup_def by (auto simp: Let_def split: sum.splits option.splits prod.splits)
  have "filter countLine out = []"
    using assms m mp unfolding loadBackup_def
    by (auto simp: Let_def split: sum.splits option.splits prod.splits dest!: substituteStore_printed)
  with mf f show ?thesis by simp
qed

lemma loadBackup_config:
  assumes "loadBackup HOME fs = (fs1, out, Inr (backup, config))"
  shows "(case liveConfig fs of None \<Rightarrow> Some (JObj []) | Some txt \<Rightarrow> JSON_parse txt) = Some config"
proof -
  obtain f o1 r1 where m: "loadMachineConfig False HOME fs = (f, o1, r1)"
    by (cases "loadMachineConfig False HOME fs") auto
  from loadMachineConfig_files [OF m] have "liveConfig f = liveConfig fs" by simp
  with assms m show ?thesis
    unfolding loadBackup_def
    by (auto simp: Let_def split: sum.splits option.splits prod.splits)
qed

lemma getProp_field: "getProp v k = Inr x \<Longrightarrow> x = field v k"
  by (cases v) (auto simp: field_def)

lemma restoreGlobal_printed:
  "restoreGlobal backup config = Inr (config1, out1) \<Longrightarrow> filter countLine out1 = []"
  by (auto simp: restoreGlobal_def split: sum.splits option.splits if_splits)

lemma mergeAndWrite_ok:
  assumes "failure (mergeAndWrite fs out backup config) = None"
  obtains config1 out1 config2 pc sk where
    "restoreGlobal backup config = Inr (config1, out1)"
    "restoreProjects (existsSync fs) (ownEntries (orEmpty (field backup ''projects''))) config1 0 0
       = Inr (config2, pc, sk)"
    "filesAfter (mergeAndWrite fs out backup config) = fs\<lparr>liveConfig := Some (JSON_stringify config2)\<rparr>"
    "printed (mergeAndWrite fs out backup config) =
       out @ out1 @ [RestoredProjects pc] @ (if 0 < sk then [SkippedProjects sk] else []) @ [SavedTo]"
proof -
  from assms obtain config1 out1 where g: "restoreGlobal backup config = Inr (config1, out1)"
    by (auto simp: mergeAndWrite_def stop_def split: sum.splits)
  from assms g obtain projects where p: "getProp backup ''projects'' = Inr projects"
    by (auto simp: mergeAndWrite_def stop_def split: sum.splits)
  from assms g p obtain config2 pc sk where
    l: "restoreProjects (existsSync fs) (ownEntries (orEmpty projects)) config1 0 0 = Inr (config2, pc, sk)"
    by (auto simp: mergeAndWrite_def stop_def split: sum.splits)
  from getProp_field [OF p] have pf: "projects = field backup ''projects''" .
  show ?thesis
    by (rule that [OF g l [unfolded pf]]) (simp_all add: mergeAndWrite_def g p l)
qed

lemma restoreMcp_ok:
  assumes "failure (restoreMcp HOME fs) = None"
  obtains fs1 out backup config where
    "loadBackup HOME fs = (fs1, out, Inr (backup, config))"
    "restoreMcp HOME fs = mergeAndWrite fs1 out backup config"
proof -
  obtain fs1 out r where l: "loadBackup HOME fs = (fs1, out, r)"
    by (cases "loadBackup HOME fs") auto
  with assms obtain backup config where r: "r = Inr (backup, config)"
    by (cases r) (auto simp: restoreMcp_def stop_def)
  show ?thesis
    by (rule that [OF l [unfolded r]]) (simp add: restoreMcp_def l r)
qed


lemma alice_restore_backup:
  "snd (snd (loadBackup ''/home/alice'' (aliceRestore aliceStore))) = Inr (aliceBackup, aliceLive)"
  by code_simp

lemma alice_restore_ok:
  "failure (restoreMcp ''/home/alice'' (aliceRestore aliceStore)) = None"
  by code_simp

section \<open>Placeholders that no substitution touches\<close>

lemma reLit_skip: "pat \<noteq> [] \<Longrightarrow> noMatchAt (reLit pat) s \<longleftrightarrow> \<not> prefix pat s"
  by (cases pat) (auto simp: noMatchAt_def reLit_def)

lemma reLit_hit: "reLit pat s = Some (Suc n) \<Longrightarrow> prefix pat s \<and> Suc n = length pat"
  by (auto simp: reLit_def split: if_splits)

lemma gsub_reLit_replaced:
  assumes "pat \<noteq> []"
  shows "replaced pat s (gsub (reLit pat) repl bef s)"
proof (induction s arbitrary: bef rule: scan_induct [of _ "reLit pat"])
  case Nil
  show ?case by (simp add: replaced.nil)
next
  case (skip c cs)
  from skip(1) assms have "\<not> prefix pat (c # cs)" by (simp add: reLit_skip)
  with skip show ?case by (simp add: replaced.skip)
next
  case (hit c cs n)
  from reLit_hit [OF hit(1)] have p: "prefix pat (c # cs)" and n: "Suc n = length pat" by simp_all
  have d: "drop (length pat) (c # cs) = drop n cs" using n [symmetric] by simp
  have "replaced pat (c # cs)
          (expandRepl repl bef (c # take n cs) (drop n cs) @ gsub (reLit pat) repl (bef @ c # take n cs) (drop n cs))"
    by (rule replaced.hit [OF p]) (simp add: d hit(2))
  with hit(1) show ?case by simp
qed

lemma splitAcc_nonempty: "splitAcc sep cur s \<noteq> []"
  by (induction sep cur s rule: splitAcc.induct) auto

lemma joinJS_splitAcc_cur:
  "joinJS rep (splitAcc sep cur s) = cur @ joinJS rep (splitAcc sep [] s)"
proof (induction s arbitrary: cur rule: length_induct)
  case (1 s)
  show ?case
  proof (cases s)
    case Nil
    then show ?thesis by simp
  next
    case (Cons c cs)
    show ?thesis
    proof (cases "sep \<noteq> [] \<and> prefix sep (c # cs)")
      case True
      obtain p ps where "splitAcc sep [] (drop (length sep) (c # cs)) = p # ps"
        using splitAcc_nonempty [of sep "[]" "drop (length sep) (c # cs)"]
        by (cases "splitAcc sep [] (drop (length sep) (c # cs))") auto
      with True Cons show ?thesis by simp
    next
      case False
      have l: "length cs < length s" using Cons by simp
      from "1.IH" [rule_format, OF l, of "cur @ [c]"] "1.IH" [rule_format, OF l, of "[c]"]
      show ?thesis using False Cons by auto
    qed
  qed
qed

lemma join_split_replaced:
  assumes "sep \<noteq> []"
  shows "replaced sep s (joinJS rep (splitJS sep s))"
proof (induction s rule: length_induct)
  case (1 s)
  show ?case
  proof (cases s)
    case Nil
    then show ?thesis using assms by (simp add: splitJS_def replaced.nil)
  next
    case (Cons c cs)
    show ?thesis
    proof (cases "prefix sep (c # cs)")
      case True
      let ?r = "drop (length sep) (c # cs)"
      have "length ?r < length s" using Cons assms by (cases sep) auto
      with "1.IH" have ih: "replaced sep ?r (joinJS rep (splitJS sep ?r))" by blast
      obtain p ps where sp: "splitAcc sep [] ?r = p # ps"
        using splitAcc_nonempty [of sep "[]" ?r] by (cases "splitAcc sep [] ?r") auto
      have "joinJS rep (splitJS sep (c # cs)) = rep @ joinJS rep (splitJS sep ?r)"
        using True assms sp by (simp add: splitJS_def)
      with replaced.hit [OF True ih, of rep] Cons show ?thesis by simp
    next
      case False
      have "length cs < length s" using Cons by simp
      with "1.IH" have ih: "replaced sep cs (joinJS rep (splitJS sep cs))" by blast
      have "joinJS rep (splitJS sep (c # cs)) = c # joinJS rep (splitJS sep cs)"
        using False assms joinJS_splitAcc_cur [of rep sep "[c]" cs] by (simp add: splitJS_def)
      with replaced.skip [OF False ih] Cons show ?thesis by simp
    qed
  qed
qed

lemma sublist_marker_start:
  assumes "a \<notin> set xs" and "sublist (a # w) (xs @ ys)"
  shows "sublist (a # w) ys"
  using assms
proof (induction xs)
  case Nil
  then show ?case by simp
next
  case (Cons x xs)
  from Cons.prems(1) have xa: "a \<noteq> x" and nx: "a \<notin> set xs" by auto
  from Cons.prems(2) have "prefix (a # w) (x # xs @ ys) \<or> sublist (a # w) (xs @ ys)"
    by (simp only: append_Cons sublist_Cons_right)
  with xa have "sublist (a # w) (xs @ ys)" by simp
  with Cons.IH [OF nx] show ?case by simp
qed

lemma replaced_unmarked_prefix:
  assumes "replaced pat s t" and "pat = a # p" and "a \<notin> set u" and "prefix u s"
  shows "prefix u t"
  using assms(1,3,4)
proof (induction arbitrary: u rule: replaced.induct)
  case nil
  then show ?case by simp
next
  case (skip c cs t)
  show ?case
  proof (cases u)
    case Nil
    then show ?thesis by simp
  next
    case (Cons x u')
    with skip.prems have "x = c" "prefix u' cs" "a \<notin> set u'" by auto
    with skip.IH [of u'] Cons show ?thesis by simp
  qed
next
  case (hit c cs t ins)
  show ?case
  proof (cases u)
    case Nil
    then show ?thesis by simp
  next
    case (Cons x u')
    with hit.prems have "x = c" by auto
    moreover from hit.hyps(1) assms(2) have "c = a" by simp
    ultimately show ?thesis using hit.prems(1) Cons by simp
  qed
qed

lemma replaced_keeps:
  assumes "replaced pat s t"
    and "pat = a # p" and "a \<notin> set p"
    and "a \<notin> set w"
    and "\<And>r. \<not> prefix (a # w) (pat @ r)"
    and "sublist (a # w) s"
  shows "sublist (a # w) t"
  using assms(1,6)
proof (induction rule: replaced.induct)
  case nil
  then show ?case by simp
next
  case (skip c cs t)
  from skip.prems have "prefix (a # w) (c # cs) \<or> sublist (a # w) cs"
    by (simp add: sublist_Cons_right)
  then show ?case
  proof
    assume pw: "prefix (a # w) (c # cs)"
    then have c: "c = a" and "prefix w cs" by simp_all
    from replaced_unmarked_prefix [OF skip.hyps(2) assms(2,4) this(2)]
    have "prefix (a # w) (c # t)" using c by simp
    then show ?thesis by (rule prefix_imp_sublist)
  next
    assume "sublist (a # w) cs"
    with skip.IH have "sublist (a # w) t" by simp
    then show ?thesis by (simp add: sublist_Cons_right)
  qed
next
  case (hit c cs t ins)
  from hit.hyps(1) obtain r where r: "c # cs = pat @ r" by (auto simp: prefix_def)
  then have d: "drop (length pat) (c # cs) = r" by (metis append_eq_conv_conj)
  from hit.prems r have "sublist (a # w) (a # (p @ r))" by (simp add: assms(2))
  then have "prefix (a # w) (a # p @ r) \<or> sublist (a # w) (p @ r)"
    by (simp add: sublist_Cons_right)
  moreover have "\<not> prefix (a # w) (a # p @ r)"
    using assms(5) [of r] by (simp add: assms(2))
  ultimately have "sublist (a # w) (p @ r)" by simp
  then have "sublist (a # w) r" by (rule sublist_marker_start [OF assms(3)])
  with hit.IH d have "sublist (a # w) t" by simp
  then obtain ps ss where "t = ps @ (a # w) @ ss" by (auto simp: sublist_def)
  then have "ins @ t = (ins @ ps) @ (a # w) @ ss" by simp
  then show ?case unfolding sublist_def by blast
qed

lemma placeholder_Cons: "placeholder name = CHR ''$'' # (CHR ''{'' # name @ ''}'')"
  by (simp add: placeholder_def)

lemma before_marker_eq:
  "x \<notin> set a \<Longrightarrow> x \<notin> set b \<Longrightarrow> a @ x # r = b @ x # z \<Longrightarrow> a = b"
proof (induction a arbitrary: b)
  case Nil
  then show ?case by (cases b) auto
next
  case (Cons y a)
  then show ?case by (cases b) auto
qed

lemma placeholder_distinct:
  assumes "name \<noteq> key" and "CHR ''}'' \<notin> set name" and "CHR ''}'' \<notin> set key"
  shows "\<not> prefix (placeholder name) (placeholder key @ r)"
proof
  assume "prefix (placeholder name) (placeholder key @ r)"
  then have p: "prefix (name @ ''}'') (key @ ''}'' @ r)"
    by (simp add: placeholder_def)
  then obtain z where z: "key @ ''}'' @ r = (name @ ''}'') @ z" by (auto simp: prefix_def)
  then have "key @ CHR ''}'' # r = name @ CHR ''}'' # z" by simp
  then have "key = name"
    by (rule before_marker_eq [OF assms(3,2)])
  with assms(1) show False by simp
qed

lemma replaced_keeps_placeholder:
  assumes "replaced (placeholder key) s t"
    and "name \<noteq> key"
    and "CHR ''$'' \<notin> set name" "CHR ''}'' \<notin> set name"
    and "CHR ''$'' \<notin> set key" "CHR ''}'' \<notin> set key"
    and "sublist (placeholder name) s"
  shows "sublist (placeholder name) t"
  unfolding placeholder_Cons
proof (rule replaced_keeps [OF assms(1) placeholder_Cons])
  show "CHR ''$'' \<notin> set (CHR ''{'' # key @ ''}'')" using assms(5) by simp
  show "CHR ''$'' \<notin> set (CHR ''{'' # name @ ''}'')" using assms(3) by simp
  show "\<And>r. \<not> prefix (CHR ''$'' # CHR ''{'' # name @ ''}'') (placeholder key @ r)"
    using placeholder_distinct [OF assms(2,4,6)] by (simp add: placeholder_Cons)
  show "sublist (CHR ''$'' # CHR ''{'' # name @ ''}'') s"
    using assms(7) by (simp add: placeholder_Cons)
qed

lemma regexSafe_chars: "regexSafe key \<Longrightarrow> CHR ''$'' \<notin> set key \<and> CHR ''}'' \<notin> set key"
  by (auto simp: regexSafe_def list_all_iff)

lemma substituteSecrets_keeps:
  assumes "substituteSecrets entries s = Inr t"
    and "name \<notin> fst ` set entries"
    and "CHR ''$'' \<notin> set name" "CHR ''}'' \<notin> set name"
    and "sublist (placeholder name) s"
  shows "sublist (placeholder name) t"
  using assms(1,2,5)
proof (induction entries s rule: substituteSecrets.induct)
  case (1 backupStr)
  then show ?case by simp
next
  case (2 key "value" rest backupStr)
  from "2.prems"(1) have safe: "regexSafe key" by (simp split: if_splits)
  let ?s = "replaceJS (reLit (placeholder key)) (toStringJS value) backupStr"
  from "2.prems"(1) safe have r: "substituteSecrets rest ?s = Inr t" by simp
  have rp: "replaced (placeholder key) backupStr ?s"
    unfolding replaceJS_def by (rule gsub_reLit_replaced) (simp add: placeholder_def)
  have nk: "name \<noteq> key" using "2.prems"(2) by auto
  have k1: "CHR ''$'' \<notin> set key" and k2: "CHR ''}'' \<notin> set key"
    using regexSafe_chars [OF safe] by simp_all
  have keep: "sublist (placeholder name) ?s"
    by (rule replaced_keeps_placeholder [OF rp nk assms(3,4) k1 k2 "2.prems"(3)])
  have nr: "name \<notin> fst ` set rest" using "2.prems"(2) by auto
  show ?case by (rule "2.IH" [OF safe r nr keep])
qed

lemma substitutePaths_keeps:
  assumes "name \<noteq> ''CODE_DIR''" and "name \<noteq> ''HOME''"
    and "CHR ''$'' \<notin> set name" "CHR ''}'' \<notin> set name"
    and "sublist (placeholder name) s"
  shows "sublist (placeholder name) (substitutePaths codeDir HOME s)"
proof -
  let ?s1 = "joinJS codeDir (splitJS ''${CODE_DIR}'' s)"
  have c: "placeholder ''CODE_DIR'' = ''${CODE_DIR}''" and h: "placeholder ''HOME'' = ''${HOME}''"
    by (simp_all add: placeholder_def)
  have r1: "replaced (placeholder ''CODE_DIR'') s ?s1"
    unfolding c by (rule join_split_replaced) simp
  have 1: "sublist (placeholder name) ?s1"
    by (rule replaced_keeps_placeholder [OF r1 assms(1,3,4) _ _ assms(5)]) simp_all
  have r2: "replaced (placeholder ''HOME'') ?s1 (joinJS HOME (splitJS ''${HOME}'' ?s1))"
    unfolding h by (rule join_split_replaced) simp
  have "sublist (placeholder name) (joinJS HOME (splitJS ''${HOME}'' ?s1))"
    by (rule replaced_keeps_placeholder [OF r2 assms(2,3,4) _ _ 1]) simp_all
  then show ?thesis by (simp only: substitutePaths_def Let_def)
qed

lemma substituteStore_keeps:
  assumes "substituteStore fs s = Inr (t, out)"
    and "\<not> hasSecret fs name"
    and "CHR ''$'' \<notin> set name" "CHR ''}'' \<notin> set name"
    and "sublist (placeholder name) s"
  shows "sublist (placeholder name) t \<and> (WarnNoSecretsFile \<in> set out \<longleftrightarrow> secretsFile fs = None)"
proof (cases "secretsFile fs")
  case None
  with assms(1,5) show ?thesis by (auto simp: substituteStore_def)
next
  case (Some content)
  with assms(1) obtain store where st: "JSON_parse content = Some store"
    and sub: "substituteSecrets (ownEntries store) s = Inr t"
    and out: "out = [SubstitutedSecrets (map fst (ownEntries store))]"
    by (auto simp: substituteStore_def split: option.splits json.splits sum.splits)
  from assms(2) Some st have "name \<notin> fst ` set (ownEntries store)"
    by (simp add: hasSecret_def)
  from substituteSecrets_keeps [OF sub this assms(3,4,5)] out Some show ?thesis by simp
qed

lemma textToParse_loadBackup:
  assumes "textToParse HOME fs = Some str"
  obtains fs1 out1 codeDir backupStr out3 where
    "loadMachineConfig False HOME fs = (fs1, out1, Inr codeDir)"
    "snapshotFile fs = Some backupStr"
    "substituteStore fs1 (substitutePaths codeDir HOME backupStr) = Inr (str, out3)"
    "secretsFile fs1 = secretsFile fs"
    "loadBackup HOME fs =
       (fs1, out1 @ [MachineConfigLine HOME codeDir] @ out3,
        case JSON_parse str of
          None \<Rightarrow> Inl SyntaxError
        | Some backup \<Rightarrow>
            (case (case liveConfig fs of None \<Rightarrow> Some (JObj []) | Some txt \<Rightarrow> JSON_parse txt) of
               None \<Rightarrow> Inl SyntaxError
             | Some config \<Rightarrow> Inr (backup, config)))"
proof -
  obtain fs1 out1 r where m: "loadMachineConfig False HOME fs = (fs1, out1, r)"
    by (cases "loadMachineConfig False HOME fs") auto
  with assms obtain codeDir where r: "r = Inr codeDir"
    by (cases r) (auto simp: textToParse_def)
  note mf = loadMachineConfig_files [OF m]
  from assms m r obtain backupStr where b: "snapshotFile fs1 = Some backupStr"
    by (auto simp: textToParse_def split: option.splits)
  from assms m r b obtain out3 where
    s: "substituteStore fs1 (substitutePaths codeDir HOME backupStr) = Inr (str, out3)"
    by (auto simp: textToParse_def split: sum.splits)
  show ?thesis
  proof (rule that [OF m [unfolded r] _ s])
    show "snapshotFile fs = Some backupStr" using b mf by simp
    show "secretsFile fs1 = secretsFile fs" using mf by simp
    show "loadBackup HOME fs =
       (fs1, out1 @ [MachineConfigLine HOME codeDir] @ out3,
        case JSON_parse str of
          None \<Rightarrow> Inl SyntaxError
        | Some backup \<Rightarrow>
            (case (case liveConfig fs of None \<Rightarrow> Some (JObj []) | Some txt \<Rightarrow> JSON_parse txt) of
               None \<Rightarrow> Inl SyntaxError
             | Some config \<Rightarrow> Inr (backup, config)))"
    proof -
      have lc: "liveConfig fs1 = liveConfig fs" using mf by simp
      show ?thesis
        by (simp add: loadBackup_def m r b s Let_def lc split: option.splits)
    qed
  qed
qed

lemma mergeAndWrite_warn:
  "WarnNoSecretsFile \<in> set (printed (mergeAndWrite fs out backup config))
     \<longleftrightarrow> WarnNoSecretsFile \<in> set out"
  by (auto simp: mergeAndWrite_def stop_def restoreGlobal_def
           split: sum.splits option.splits if_splits prod.splits)

lemma restoreMcp_printed_failed:
  "loadBackup HOME fs = (fs1, out, r) \<Longrightarrow>
   WarnNoSecretsFile \<in> set (printed (restoreMcp HOME fs)) \<longleftrightarrow> WarnNoSecretsFile \<in> set out"
  by (cases r) (auto simp: restoreMcp_def stop_def mergeAndWrite_warn)

lemma alice_text_store:
  "textToParse ''/home/alice'' (aliceRestore aliceStore) = Some (JSON_stringify aliceBackup)"
  by code_simp

lemma alice_text_nostore:
  "textToParse ''/home/alice'' (aliceRestore None) = Some (JSON_stringify aliceBackup)"
  by code_simp

lemma alice_snapshot_placeholder:
  "sublist (placeholder ''STRIPE_TEST_API_KEY'') (JSON_stringify aliceSnapshot)"
  by code_simp


lemma alice_restore_printed:
  "printed (restoreMcp ''/home/alice'' (aliceRestore aliceStore)) =
     [MachineConfigLine ''/home/alice'' ''/home/alice/code'', SubstitutedSecrets [''OTHER''],
      RestoredGlobal 1, RestoredProjects 1, SkippedProjects 1, SavedTo]"
  by code_simp

lemma alice_no_secret:
  "\<not> hasSecret (aliceRestore aliceStore) ''STRIPE_TEST_API_KEY''"
  by code_simp

section \<open>A file that is no JSON\<close>

lemma serialize_files:
  assumes "serialize HOME fs = (fs1, out, r)"
  shows "keptFiles fs fs1"
proof -
  obtain f o1 r1 where m: "loadMachineConfig True HOME fs = (f, o1, r1)"
    by (cases "loadMachineConfig True HOME fs") auto
  from assms m have "fs1 = f"
    unfolding serialize_def by (auto split: sum.splits option.splits prod.splits)
  with loadMachineConfig_files [OF m] show ?thesis by (auto simp: keptFiles_def)
qed

lemma serialize_parse_error:
  assumes "liveConfig fs = Some content" and "JSON_parse content = None"
    and "serialize HOME fs = (fs1, out, r)"
  shows "\<exists>e. r = Inl e"
proof -
  obtain f o1 r1 where m: "loadMachineConfig True HOME fs = (f, o1, r1)"
    by (cases "loadMachineConfig True HOME fs") auto
  from loadMachineConfig_files [OF m] assms(1) have "liveConfig f = Some content" by simp
  with assms(2,3) m show ?thesis
    unfolding serialize_def by (cases r1) auto
qed

lemma loadBackup_parse_error:
  assumes "liveConfig fs = Some content" and "JSON_parse content = None"
    and "loadBackup HOME fs = (fs1, out, r)"
  shows "\<exists>e. r = Inl e"
proof (cases r)
  case (Inl e)
  then show ?thesis by simp
next
  case (Inr bc)
  then obtain backup config where "r = Inr (backup, config)" by (cases bc) auto
  with loadBackup_config [of HOME fs fs1 out backup config] assms show ?thesis by simp
qed

lemma broken_parse: "JSON_parse ''{'' = None"
  by code_simp

lemma broken_extract:
  "failure (extractMcp ''/home/alice'' brokenLive) = Some SyntaxError \<and>
   machineConfigFile (filesAfter (extractMcp ''/home/alice'' brokenLive)) =
     Some (JSON_stringify (JObj [(''codeDir'', JStr ''/home/alice/code'')]))"
  by code_simp


text \<open>
  C9, as the claim states it, fails. The Extractor settles the code directory
  first, and when there is no Machine Config it writes one before it reads the
  live configuration: a live configuration that is no JSON stops the run after
  that write. And the Restorer parses the snapshot after the substitutions: a
  snapshot that is no JSON, \<^verbatim>\<open>${EMPTY}\<close>, with a store that gives
  \<^verbatim>\<open>{}\<close> for it, is parsed, and the run completes and writes the live
  configuration.
\<close>

theorem parse_error_writes_counterexample:
  "liveConfig brokenLive = Some ''{'' \<and> JSON_parse ''{'' = None \<and>
   machineConfigFile brokenLive = None \<and>
   failure (extractMcp ''/home/alice'' brokenLive) = Some SyntaxError \<and>
   machineConfigFile (filesAfter (extractMcp ''/home/alice'' brokenLive)) =
     Some (JSON_stringify (JObj [(''codeDir'', JStr ''/home/alice/code'')])) \<and>
   snapshotFile oddSnapshot = Some ''${EMPTY}'' \<and> JSON_parse ''${EMPTY}'' = None \<and>
   liveConfig oddSnapshot = None \<and>
   failure (restoreMcp ''/home/alice'' oddSnapshot) = None \<and>
   liveConfig (filesAfter (restoreMcp ''/home/alice'' oddSnapshot)) = Some ''{}''"
proof -
  have a: "liveConfig brokenLive = Some ''{''" "machineConfigFile brokenLive = None"
    "snapshotFile oddSnapshot = Some ''${EMPTY}''" "liveConfig oddSnapshot = None"
    by (simp_all add: brokenLive_def oddSnapshot_def)
  have b: "JSON_parse ''${EMPTY}'' = None" by code_simp
  have c: "failure (restoreMcp ''/home/alice'' oddSnapshot) = None \<and>
           liveConfig (filesAfter (restoreMcp ''/home/alice'' oddSnapshot)) = Some ''{}''"
    by code_simp
  from a b c broken_parse broken_extract show ?thesis by simp
qed

text \<open>
  C9, amended. A live configuration that exists and is no JSON makes the run of
  either tool fatal, and the run leaves the live configuration, the snapshot and
  the Secrets Store as they were, and the Machine Config too when there was one.
  The same holds for the Restorer when the snapshot text, with paths and secrets
  substituted, is no JSON; the error is then the syntax error.
\<close>

theorem parse_error_is_fatal:
  "(liveConfig fs = Some content \<and> JSON_parse content = None \<longrightarrow>
      failure (extractMcp HOME fs) \<noteq> None \<and> keptFiles fs (filesAfter (extractMcp HOME fs)) \<and>
      failure (restoreMcp HOME fs) \<noteq> None \<and> keptFiles fs (filesAfter (restoreMcp HOME fs))) \<and>
   (textToParse HOME fs = Some str \<and> JSON_parse str = None \<longrightarrow>
      failure (restoreMcp HOME fs) = Some SyntaxError \<and>
      keptFiles fs (filesAfter (restoreMcp HOME fs)))"
proof (intro conjI impI)
  assume a: "liveConfig fs = Some content \<and> JSON_parse content = None"
  obtain fs1 out r where s: "serialize HOME fs = (fs1, out, r)"
    by (cases "serialize HOME fs") auto
  from serialize_parse_error [OF _ _ s] a obtain e where e: "r = Inl e" by blast
  have x: "extractMcp HOME fs = stop fs1 out e"
    by (simp add: extractMcp_def s e)
  show "failure (extractMcp HOME fs) \<noteq> None" by (simp add: x stop_def)
  show "keptFiles fs (filesAfter (extractMcp HOME fs))"
    using serialize_files [OF s] by (simp add: x stop_def)
  obtain fs2 out2 r2 where l: "loadBackup HOME fs = (fs2, out2, r2)"
    by (cases "loadBackup HOME fs") auto
  from loadBackup_parse_error [OF _ _ l] a obtain e2 where e2: "r2 = Inl e2" by blast
  have y: "restoreMcp HOME fs = stop fs2 out2 e2"
    by (simp add: restoreMcp_def l e2)
  show "failure (restoreMcp HOME fs) \<noteq> None" by (simp add: y stop_def)
  show "keptFiles fs (filesAfter (restoreMcp HOME fs))"
    using loadBackup_result [OF l] by (simp add: y stop_def keptFiles_def)
next
  assume b: "textToParse HOME fs = Some str \<and> JSON_parse str = None"
  then have t: "textToParse HOME fs = Some str" and n: "JSON_parse str = None" by simp_all
  from t obtain fs1 out where
    l: "loadBackup HOME fs = (fs1, out, Inl SyntaxError)"
    by (rule textToParse_loadBackup) (simp add: n)
  have y: "restoreMcp HOME fs = stop fs1 out SyntaxError"
    by (simp add: restoreMcp_def l)
  show "failure (restoreMcp HOME fs) = Some SyntaxError" by (simp add: y stop_def)
  show "keptFiles fs (filesAfter (restoreMcp HOME fs))"
    using loadBackup_result [OF l] by (simp add: y stop_def keptFiles_def)
qed


theorem parse_error_is_fatal_witness:
  "liveConfig brokenLive = Some ''{'' \<and> JSON_parse ''{'' = None \<and>
   failure (extractMcp ''/home/alice'' brokenLive) \<noteq> None \<and>
   liveConfig (filesAfter (extractMcp ''/home/alice'' brokenLive)) = Some ''{'' \<and>
   snapshotFile (filesAfter (extractMcp ''/home/alice'' brokenLive)) = None \<and>
   secretsFile (filesAfter (extractMcp ''/home/alice'' brokenLive)) = None \<and>
   failure (restoreMcp ''/home/alice'' brokenLive) \<noteq> None \<and>
   liveConfig (filesAfter (restoreMcp ''/home/alice'' brokenLive)) = Some ''{'' \<and>
   textToParse ''/home/alice'' brokenSnapshot = Some ''['' \<and> JSON_parse ''['' = None \<and>
   failure (restoreMcp ''/home/alice'' brokenSnapshot) = Some SyntaxError \<and>
   liveConfig (filesAfter (restoreMcp ''/home/alice'' brokenSnapshot)) = None"
proof -
  have h: "liveConfig brokenLive = Some ''{''" by (simp add: brokenLive_def)
  from parse_error_is_fatal [of brokenLive "''{''" "''/home/alice''" "[]"] h broken_parse
  have "failure (extractMcp ''/home/alice'' brokenLive) \<noteq> None"
    and k1: "keptFiles brokenLive (filesAfter (extractMcp ''/home/alice'' brokenLive))"
    and "failure (restoreMcp ''/home/alice'' brokenLive) \<noteq> None"
    and k2: "keptFiles brokenLive (filesAfter (restoreMcp ''/home/alice'' brokenLive))"
    by simp_all
  moreover from k1 have "liveConfig (filesAfter (extractMcp ''/home/alice'' brokenLive)) = Some ''{''"
    "snapshotFile (filesAfter (extractMcp ''/home/alice'' brokenLive)) = None"
    "secretsFile (filesAfter (extractMcp ''/home/alice'' brokenLive)) = None"
    by (simp_all add: keptFiles_def brokenLive_def)
  moreover from k2 have "liveConfig (filesAfter (restoreMcp ''/home/alice'' brokenLive)) = Some ''{''"
    by (simp add: keptFiles_def brokenLive_def)
  moreover have t: "textToParse ''/home/alice'' brokenSnapshot = Some ''[''" by code_simp
  moreover have p: "JSON_parse ''['' = None" by code_simp
  moreover from parse_error_is_fatal [of brokenSnapshot "[]" "''/home/alice''" "''[''"] t p
  have "failure (restoreMcp ''/home/alice'' brokenSnapshot) = Some SyntaxError"
    and k3: "keptFiles brokenSnapshot (filesAfter (restoreMcp ''/home/alice'' brokenSnapshot))"
    by simp_all
  moreover from k3 have "liveConfig (filesAfter (restoreMcp ''/home/alice'' brokenSnapshot)) = None"
    by (simp add: keptFiles_def brokenSnapshot_def)
  ultimately show ?thesis using h broken_parse by simp
qed


end
